theory Spec2Isabelle
  imports Complex_Main "HOL-Library.Word" "HOL-Library.Log_Nat"
begin

unbundle bit_operations_syntax

section \<open>RD-03D radar relay: frame synchronizer, target decoder, classifier, relay\<close>

text \<open>
  A shallow embedding of \<^verbatim>\<open>RaspberryPi/Ble_gatt_server.py\<close>. Bytes are 8-bit words,
  Python integers are \<open>int\<close>, a \<^verbatim>\<open>bytearray\<close> is a list of bytes, and every exception
  the modelled code can raise is a value of \<open>error\<close>.
\<close>

subsection \<open>Constants\<close>

type_synonym byte = "8 word"

definition FRAME_HEADER :: "byte list" where
  "FRAME_HEADER = [0xAA, 0xFF, 0x03, 0x00]"

definition FRAME_TAIL :: "byte list" where
  "FRAME_TAIL = [0x55, 0xCC]"

definition FRAME_LEN :: nat where
  "FRAME_LEN = 30"

definition TARGETS_PER_FRAME :: nat where
  "TARGETS_PER_FRAME = 3"

datatype error = AssertionError | StructError | OverflowError

subsection \<open>Frame synchronizer\<close>

text \<open>
  \<^verbatim>\<open>bytearray.find(sub)\<close>: the lowest index at which \<open>sub\<close> occurs, \<open>None\<close> for
  Python's \<open>-1\<close>.
\<close>

fun find_bytes :: "byte list \<Rightarrow> byte list \<Rightarrow> nat option" where
  "find_bytes [] sub = (if sub = [] then Some 0 else None)"
| "find_bytes (b # bs) sub =
     (if take (length sub) (b # bs) = sub then Some 0
      else map_option Suc (find_bytes bs sub))"

text \<open>
  \<^verbatim>\<open>RD03DRadar._extract_frame_from_buffer\<close>. The argument is \<^verbatim>\<open>self.buffer\<close>; the result
  is the returned frame (\<open>None\<close> for Python's \<^verbatim>\<open>None\<close>) and the buffer the call leaves
  behind. The \<^verbatim>\<open>while True\<close> loop is the recursion; \<^verbatim>\<open>continue\<close> is the recursive call.
\<close>

function extract_frame_from_buffer :: "byte list \<Rightarrow> byte list option \<times> byte list" where
  "extract_frame_from_buffer buffer =
     (case find_bytes buffer FRAME_HEADER of
        None \<Rightarrow> (None, if length buffer > 3 then drop (length buffer - 3) buffer else buffer)
      | Some idx \<Rightarrow>
          if length buffer - idx < FRAME_LEN then (None, buffer)
          else
            let frame = take FRAME_LEN (drop idx buffer);
                buffer' = drop (idx + FRAME_LEN) buffer
            in if drop (length frame - 2) frame \<noteq> FRAME_TAIL
               then extract_frame_from_buffer buffer'
               else (Some frame, buffer'))"
  by pat_completeness auto
termination
  by (relation "measure length") (auto simp: FRAME_LEN_def)

declare extract_frame_from_buffer.simps [simp del]

text \<open>
  \<^verbatim>\<open>RD03DRadar.read_frame\<close>. What \<^verbatim>\<open>self.ser.read(64)\<close> did is an input of the model:
  it raised \<^verbatim>\<open>SerialException\<close>, or it returned a chunk (empty on a timeout).
\<close>

datatype serial_read = SerialException | Chunk "byte list"

definition read_frame :: "byte list \<Rightarrow> serial_read \<Rightarrow> byte list option \<times> byte list" where
  "read_frame buffer r =
     (case r of
        SerialException \<Rightarrow> (None, buffer)
      | Chunk chunk \<Rightarrow>
          extract_frame_from_buffer (if chunk \<noteq> [] then buffer @ chunk else buffer))"

subsection \<open>Python floats\<close>

text \<open>
  A Python \<^verbatim>\<open>float\<close> is an IEEE-754 binary64 number. A finite one is modelled by the real
  number it denotes, and every arithmetic operation by the exact result rounded to the
  nearest representable number, ties to the even significand. \<open>fl_round p emin\<close> rounds to
  a format with \<open>p\<close> significand bits whose smallest normal exponent is \<open>emin\<close> (below it
  the spacing stays that of the subnormal numbers). An operation of the modelled code whose
  rounded result reaches \<open>2^1024\<close> would give an infinity in Python; where the code turns
  that into an exception the model has the \<open>OverflowError\<close>.
\<close>

definition round_half_even :: "real \<Rightarrow> int" where
  "round_half_even x =
     (let n = \<lfloor>x\<rfloor>; d = x - of_int n
      in if d < 1 / 2 then n else if 1 / 2 < d then n + 1 else if even n then n else n + 1)"

text \<open>For \<open>x > 0\<close>: the exponent \<open>e\<close> with \<open>2^e \<le> x < 2^(e+1)\<close>.\<close>

definition floor_log2 :: "real \<Rightarrow> int" where
  "floor_log2 x = (if 1 \<le> x then bitlen \<lfloor>x\<rfloor> - 1 else - bitlen (\<lceil>1 / x\<rceil> - 1))"

definition fl_round :: "nat \<Rightarrow> int \<Rightarrow> real \<Rightarrow> real" where
  "fl_round p emin x =
     (if x = 0 then 0
      else
        let e = max (floor_log2 \<bar>x\<bar>) emin;
            ulp = 2 powi (e - int p + 1)
        in of_int (round_half_even (x / ulp)) * ulp)"

definition fl64 :: "real \<Rightarrow> real" where
  "fl64 = fl_round 53 (- 1022)"

definition fl32 :: "real \<Rightarrow> real" where
  "fl32 = fl_round 24 (- 126)"

text \<open>
  Converting a Python integer to a float, as the operand of \<^verbatim>\<open>/\<close> with a float or the
  argument of \<^verbatim>\<open>math.hypot\<close>: correctly rounded, \<^verbatim>\<open>OverflowError\<close> beyond the doubles.
\<close>

definition float_of_int :: "int \<Rightarrow> error + real" where
  "float_of_int n =
     (let r = fl64 (of_int n) in if 2 ^ 1024 \<le> \<bar>r\<bar> then Inl OverflowError else Inr r)"

text \<open>\<^verbatim>\<open>n / d\<close> for an integer \<open>n\<close> and a float \<open>d\<close>.\<close>

definition int_truediv :: "int \<Rightarrow> real \<Rightarrow> error + real" where
  "int_truediv n d =
     (case float_of_int n of Inl e \<Rightarrow> Inl e | Inr a \<Rightarrow> Inr (fl64 (a / d)))"

text \<open>
  \<^verbatim>\<open>int(r)\<close> of a float truncates towards zero; of an infinity it raises
  \<^verbatim>\<open>OverflowError\<close>.
\<close>

definition int_of_float :: "real \<Rightarrow> error + int" where
  "int_of_float r =
     (if 2 ^ 1024 \<le> \<bar>r\<bar> then Inl OverflowError
      else Inr (if r < 0 then \<lceil>r\<rceil> else \<lfloor>r\<rfloor>))"

text \<open>
  \<^verbatim>\<open>math.hypot\<close> on two integers, taken as correctly rounded: the arguments become floats
  and the result is the double nearest to the real root.
\<close>

definition hypot :: "int \<Rightarrow> int \<Rightarrow> error + real" where
  "hypot x y =
     (case float_of_int x of
        Inl e \<Rightarrow> Inl e
      | Inr fx \<Rightarrow>
          (case float_of_int y of
             Inl e \<Rightarrow> Inl e
           | Inr fy \<Rightarrow> Inr (fl64 (sqrt (fx * fx + fy * fy)))))"

text \<open>
  The bit pattern of a binary32 number (sign, biased exponent, fraction) and its four
  bytes, least significant first.
\<close>

definition float32_bits :: "real \<Rightarrow> 32 word" where
  "float32_bits y =
     (if y = 0 then 0
      else
        let e = max (floor_log2 \<bar>y\<bar>) (- 126);
            m = \<lfloor>\<bar>y\<bar> / 2 powi (e - 23)\<rfloor>;
            biased = (if m < 2 ^ 23 then 0 else e + 127);
            s = (if y < 0 then 1 else 0)
        in word_of_int (s * 2 ^ 31 + biased * 2 ^ 23 + m mod 2 ^ 23))"

definition le_bytes32 :: "32 word \<Rightarrow> byte list" where
  "le_bytes32 w = [ucast w, ucast (drop_bit 8 w), ucast (drop_bit 16 w), ucast (drop_bit 24 w)]"

text \<open>
  One \<^verbatim>\<open>f\<close> field of \<^verbatim>\<open>struct.pack\<close> in little-endian mode: the float rounded to binary32,
  \<^verbatim>\<open>OverflowError\<close> when it is too large for that format.
\<close>

definition pack_f :: "real \<Rightarrow> error + byte list" where
  "pack_f x =
     (let y = fl32 x
      in if 2 ^ 128 \<le> \<bar>y\<bar> then Inl OverflowError else Inr (le_bytes32 (float32_bits y)))"

text \<open>One \<^verbatim>\<open>B\<close> field: an integer in \<open>0..255\<close>, \<^verbatim>\<open>struct.error\<close> otherwise.\<close>

definition pack_B :: "int \<Rightarrow> error + byte list" where
  "pack_B v = (if 0 \<le> v \<and> v \<le> 255 then Inr [word_of_int v] else Inl StructError)"

subsection \<open>Target decoder\<close>

text \<open>\<^verbatim>\<open>RD03DRadar._decode_signed_mag\<close>, on Python integers.\<close>

definition decode_signed_mag :: "int \<Rightarrow> int" where
  "decode_signed_mag u16 =
     (if u16 = 0 then 0
      else
        let sign_positive = (u16 AND 0x8000 \<noteq> 0);
            mag = u16 AND 0x7FFF
        in if sign_positive then mag else - mag)"

record target =
  target_id :: int
  x_mm :: int
  y_mm :: int
  r_mm :: int
  speed_cm_s :: int
  dist_gate_mm :: int

text \<open>One little-endian unsigned 16-bit field (\<^verbatim>\<open>H\<close> of the \<^verbatim>\<open>struct\<close> module).\<close>

definition u16_le :: "byte \<Rightarrow> byte \<Rightarrow> int" where
  "u16_le lo hi = uint lo + 256 * uint hi"

text \<open>
  \<^verbatim>\<open>struct.unpack_from("<HHHH", segment, 0)\<close>: four fields from the first eight bytes, an
  error when the segment is shorter.
\<close>

fun unpack_HHHH :: "byte list \<Rightarrow> error + (int \<times> int \<times> int \<times> int)" where
  "unpack_HHHH (b0 # b1 # b2 # b3 # b4 # b5 # b6 # b7 # rest) =
     Inr (u16_le b0 b1, u16_le b2 b3, u16_le b4 b5, u16_le b6 b7)"
| "unpack_HHHH _ = Inl StructError"

text \<open>
  \<^verbatim>\<open>RD03DRadar.parse_targets\<close>. The \<^verbatim>\<open>for idx in range(TARGETS_PER_FRAME)\<close> loop runs
  over the list of indices, carrying \<^verbatim>\<open>offset\<close> and \<^verbatim>\<open>targets\<close>; the derived range
  is \<^verbatim>\<open>int(math.hypot(x_mm, y_mm))\<close>.
\<close>

fun parse_loop :: "byte list \<Rightarrow> nat list \<Rightarrow> nat \<Rightarrow> target list \<Rightarrow> error + target list" where
  "parse_loop frame [] offset targets = Inr targets"
| "parse_loop frame (idx # idxs) offset targets =
     (let segment = take 8 (drop offset frame) in
      if segment = replicate 8 0 then parse_loop frame idxs (offset + 8) targets
      else
        (case unpack_HHHH segment of
           Inl e \<Rightarrow> Inl e
         | Inr (x_raw, y_raw, v_raw, d_raw) \<Rightarrow>
             let x = decode_signed_mag x_raw;
                 y = decode_signed_mag y_raw;
                 speed = decode_signed_mag v_raw;
                 dist_gate = d_raw
             in (case hypot x y of
                   Inl e \<Rightarrow> Inl e
                 | Inr h \<Rightarrow>
                     (case int_of_float h of
                        Inl e \<Rightarrow> Inl e
                      | Inr r \<Rightarrow>
                          parse_loop frame idxs (offset + 8)
                            (targets @ [\<lparr>target_id = int idx + 1, x_mm = x, y_mm = y,
                                         r_mm = r, speed_cm_s = speed,
                                         dist_gate_mm = dist_gate\<rparr>])))))"

definition parse_targets :: "byte list \<Rightarrow> error + target list" where
  "parse_targets frame =
     (if length frame \<noteq> FRAME_LEN then Inl AssertionError
      else parse_loop frame [0..<TARGETS_PER_FRAME] 4 [])"


subsection \<open>Feeding the synchronizer\<close>

text \<open>
  The frames a caller sees over a sequence of \<^verbatim>\<open>read_frame\<close> calls, one serial read per
  call: every call returns at most one frame. The result is the list of returned frames,
  oldest first, and the buffer left after the last call.
\<close>

definition emitted :: "byte list option \<Rightarrow> byte list list" where
  "emitted r = (case r of None \<Rightarrow> [] | Some frame \<Rightarrow> [frame])"

fun feed_chunks :: "byte list \<Rightarrow> serial_read list \<Rightarrow> byte list list \<times> byte list" where
  "feed_chunks buffer [] = ([], buffer)"
| "feed_chunks buffer (r # rs) =
     (case read_frame buffer r of
        (frame, buffer') \<Rightarrow>
          (case feed_chunks buffer' rs of
             (frames, buffer'') \<Rightarrow> (emitted frame @ frames, buffer'')))"

definition chunk_size :: "serial_read \<Rightarrow> nat" where
  "chunk_size r = (case r of SerialException \<Rightarrow> 0 | Chunk chunk \<Rightarrow> length chunk)"

text \<open>A well-formed frame: 30 bytes, the header first, the tail marker last.\<close>

definition valid_frame :: "byte list \<Rightarrow> bool" where
  "valid_frame frame =
     (length frame = FRAME_LEN \<and> take 4 frame = FRAME_HEADER \<and>
      drop (FRAME_LEN - 2) frame = FRAME_TAIL)"

definition sample_frame :: "byte list" where
  "sample_frame =
     [0xAA, 0xFF, 0x03, 0x00,
      0xB8, 0x8B, 0xA0, 0x8F, 0x32, 0x80, 0x68, 0x01,
      0, 0, 0, 0, 0, 0, 0, 0,
      0, 0, 0, 0, 0, 0, 0, 0,
      0x55, 0xCC]"

text \<open>
  Vocabulary for the proofs: the pattern occurs at an index of the buffer; the buffer is
  one on which \<^verbatim>\<open>_extract_frame_from_buffer\<close> returns \<^verbatim>\<open>None\<close> and changes nothing.
\<close>

definition occurs_at :: "byte list \<Rightarrow> byte list \<Rightarrow> nat \<Rightarrow> bool" where
  "occurs_at sub xs j = (take (length sub) (drop j xs) = sub)"

definition quiescent :: "byte list \<Rightarrow> bool" where
  "quiescent buffer =
     (case find_bytes buffer FRAME_HEADER of
        None \<Rightarrow> length buffer \<le> 3
      | Some idx \<Rightarrow> length buffer - idx < FRAME_LEN)"

subsection \<open>What the decoder yields, slot by slot\<close>

text \<open>
  Vocabulary for the proofs about \<^verbatim>\<open>parse_targets\<close>: the eight bytes of a slot of a
  30-byte frame, the target a non-zero slot decodes to (its range the integer part of the
  exact norm, which is what the rounded \<^verbatim>\<open>math.hypot\<close> gives on decoded coordinates), and
  the zero or one targets of a slot.
\<close>

definition slot_segment :: "byte list \<Rightarrow> nat \<Rightarrow> byte list" where
  "slot_segment frame idx = take 8 (drop (4 + 8 * idx) frame)"

definition make_target :: "nat \<Rightarrow> byte list \<Rightarrow> target" where
  "make_target idx segment =
     (let x = decode_signed_mag (u16_le (segment ! 0) (segment ! 1));
          y = decode_signed_mag (u16_le (segment ! 2) (segment ! 3))
      in \<lparr>target_id = int idx + 1, x_mm = x, y_mm = y,
          r_mm = \<lfloor>sqrt (of_int (x * x + y * y))\<rfloor>,
          speed_cm_s = decode_signed_mag (u16_le (segment ! 4) (segment ! 5)),
          dist_gate_mm = u16_le (segment ! 6) (segment ! 7)\<rparr>)"

definition slot_targets :: "byte list \<Rightarrow> nat \<Rightarrow> target list" where
  "slot_targets frame idx =
     (if slot_segment frame idx = replicate 8 0 then []
      else [make_target idx (slot_segment frame idx)])"

text \<open>A frame whose first slot holds \<open>x = 2 mm\<close>, \<open>y = 2 mm\<close>.\<close>

definition near_frame :: "byte list" where
  "near_frame =
     [0xAA, 0xFF, 0x03, 0x00,
      0x02, 0x80, 0x02, 0x80, 0, 0, 0, 0,
      0, 0, 0, 0, 0, 0, 0, 0,
      0, 0, 0, 0, 0, 0, 0, 0,
      0x55, 0xCC]"
subsection \<open>Classifier and outbound packet\<close>

definition POSITION_SCALE :: real where
  "POSITION_SCALE = 3"

definition MAX_POSITION_METERS :: real where
  "MAX_POSITION_METERS = 10"

definition OBJECT_TYPE_UNKNOWN :: int where
  "OBJECT_TYPE_UNKNOWN = 0"

definition OBJECT_TYPE_PERSON :: int where
  "OBJECT_TYPE_PERSON = 1"

definition OBJECT_TYPE_OBJECT :: int where
  "OBJECT_TYPE_OBJECT = 2"

definition OBJECT_TYPE_GHOST :: int where
  "OBJECT_TYPE_GHOST = 3"

text \<open>
  \<^verbatim>\<open>RadarDataCharacteristic.classify_target\<close>. The float literals \<^verbatim>\<open>0.5\<close>, \<^verbatim>\<open>8.0\<close>,
  \<^verbatim>\<open>4.0\<close>, \<^verbatim>\<open>100.0\<close> and \<^verbatim>\<open>1000.0\<close> are exact; \<^verbatim>\<open>0.05\<close>, \<^verbatim>\<open>0.2\<close>, \<^verbatim>\<open>0.3\<close>,
  \<^verbatim>\<open>0.8\<close> and \<^verbatim>\<open>0.85\<close> denote the nearest doubles.
\<close>

definition classify_target :: "target \<Rightarrow> error + (int \<times> real)" where
  "classify_target t =
     (case int_truediv \<bar>speed_cm_s t\<bar> 100 of
        Inl e \<Rightarrow> Inl e
      | Inr speed_m_s \<Rightarrow>
          (case int_truediv (r_mm t) 1000 of
             Inl e \<Rightarrow> Inl e
           | Inr r_m \<Rightarrow>
               Inr (if r_m < 1 / 2 \<or> 8 < r_m then (OBJECT_TYPE_GHOST, fl64 (2 / 10))
                    else if 4 < speed_m_s then (OBJECT_TYPE_GHOST, fl64 (3 / 10))
                    else if speed_m_s < fl64 (5 / 100) then (OBJECT_TYPE_OBJECT, fl64 (8 / 10))
                    else (OBJECT_TYPE_PERSON, fl64 (85 / 100)))))"

text \<open>\<^verbatim>\<open>struct.pack('<fffffB', ...)\<close>: the fields in order, no padding.\<close>

definition struct_pack_fffffB ::
    "real \<Rightarrow> real \<Rightarrow> real \<Rightarrow> real \<Rightarrow> real \<Rightarrow> int \<Rightarrow> error + byte list" where
  "struct_pack_fffffB f1 f2 f3 f4 f5 b =
     (case pack_f f1 of Inl e \<Rightarrow> Inl e | Inr b1 \<Rightarrow>
      (case pack_f f2 of Inl e \<Rightarrow> Inl e | Inr b2 \<Rightarrow>
       (case pack_f f3 of Inl e \<Rightarrow> Inl e | Inr b3 \<Rightarrow>
        (case pack_f f4 of Inl e \<Rightarrow> Inl e | Inr b4 \<Rightarrow>
         (case pack_f f5 of Inl e \<Rightarrow> Inl e | Inr b5 \<Rightarrow>
          (case pack_B b of Inl e \<Rightarrow> Inl e | Inr b6 \<Rightarrow>
             Inr (b1 @ b2 @ b3 @ b4 @ b5 @ b6)))))))"

text \<open>
  \<^verbatim>\<open>RadarDataCharacteristic.pack_radar_data\<close>. A primed name is the variable after its
  reassignment by the clamping statement.
\<close>

definition pack_radar_data :: "target \<Rightarrow> error + byte list" where
  "pack_radar_data t =
     (case int_truediv (x_mm t) 1000 of Inl e \<Rightarrow> Inl e | Inr x_m \<Rightarrow>
      (case int_truediv (y_mm t) 1000 of Inl e \<Rightarrow> Inl e | Inr y_m \<Rightarrow>
       (case int_truediv (r_mm t) 1000 of Inl e \<Rightarrow> Inl e | Inr depth_m \<Rightarrow>
          let vis_x = fl64 (x_m * POSITION_SCALE);
              vis_y = fl64 (y_m * POSITION_SCALE);
              vis_x' = max (- MAX_POSITION_METERS) (min MAX_POSITION_METERS vis_x);
              vis_y' = max (- MAX_POSITION_METERS) (min MAX_POSITION_METERS vis_y);
              snr_db = fl64 (40 - fl64 (depth_m * 5));
              snr_db' = (if snr_db < 5 then 5 else if 35 < snr_db then 35 else snr_db);
              confidence = fl64 (fl64 (snr_db' - 5) / 30);
              confidence' =
                (if confidence < 0 then 0 else if 1 < confidence then 1 else confidence)
          in (case classify_target t of
                Inl e \<Rightarrow> Inl e
              | Inr (object_type, _) \<Rightarrow>
                  let object_type_byte = object_type AND 0xFF
                  in struct_pack_fffffB vis_x' vis_y' depth_m snr_db' confidence'
                       object_type_byte))))"


subsection \<open>The packet in the words of its description\<close>

text \<open>
  \<open>clamp v lo hi\<close> limits \<open>v\<close> to the interval from \<open>lo\<close> to \<open>hi\<close>; \<open>f32le v\<close> is
  the little-endian IEEE-754 binary32 encoding of the float nearest to \<open>v\<close>.
\<close>

definition clamp :: "real \<Rightarrow> real \<Rightarrow> real \<Rightarrow> real" where
  "clamp v lo hi = max lo (min hi v)"

definition f32le :: "real \<Rightarrow> byte list" where
  "f32le v = le_bytes32 (float32_bits (fl32 v))"
subsection \<open>Relay: bounded queue, reader loop, publish tick\<close>

text \<open>
  The \<^verbatim>\<open>queue.Queue(maxsize=10)\<close> of \<^verbatim>\<open>main\<close>, as the list of queued batches, oldest
  first. A call that can block either returns or leaves its caller waiting.
\<close>

type_synonym batch = "target list"

definition QUEUE_MAXSIZE :: nat where
  "QUEUE_MAXSIZE = 10"

datatype 'a blocking = Returns 'a | Blocks

text \<open>
  \<^verbatim>\<open>Queue.put(item)\<close> with its defaults (\<^verbatim>\<open>block=True\<close>, no timeout): it waits while
  the queue holds \<^verbatim>\<open>maxsize\<close> items.
\<close>

definition queue_put :: "batch list \<Rightarrow> batch \<Rightarrow> batch list blocking" where
  "queue_put q item = (if QUEUE_MAXSIZE \<le> length q then Blocks else Returns (q @ [item]))"

text \<open>
  One round of the loop of \<^verbatim>\<open>radar_reader_thread\<close>, on the radar's buffer and the queue:
  the loop goes on with a new buffer and queue, or the thread waits inside \<^verbatim>\<open>put\<close>, or an
  exception ends it. A waiting thread holds the buffer as \<^verbatim>\<open>read_frame\<close> left it and the
  batch it is about to put; the queue is as it was, \<^verbatim>\<open>put\<close> has not touched it.
\<close>

datatype reader_outcome =
  Continue "byte list" "batch list" | Blocked "byte list" "batch list" batch | Raised error

definition reader_step :: "byte list \<Rightarrow> batch list \<Rightarrow> serial_read \<Rightarrow> reader_outcome" where
  "reader_step buffer q r =
     (case read_frame buffer r of
        (None, buffer') \<Rightarrow> Continue buffer' q
      | (Some frame, buffer') \<Rightarrow>
          if frame = [] then Continue buffer' q
          else
            (case parse_targets frame of
               Inl e \<Rightarrow> Raised e
             | Inr targets \<Rightarrow>
                 if targets = [] then Continue buffer' q
                 else
                   (case queue_put q targets of
                      Blocks \<Rightarrow> Blocked buffer' q targets
                    | Returns q' \<Rightarrow> Continue buffer' q')))"


text \<open>
  The state the publish tick works on: the queue object shared with the reader, whether
  \<^verbatim>\<open>set_radar_queue\<close> has attached it to the characteristic (\<^verbatim>\<open>radar_queue\<close> is not
  \<^verbatim>\<open>None\<close>), the \<^verbatim>\<open>notifying\<close> flag, the characteristic's stored \<^verbatim>\<open>value\<close>, and the
  values sent so far with \<^verbatim>\<open>PropertiesChanged\<close>, oldest first.
\<close>

record relay =
  data_queue :: "batch list"
  radar_queue_set :: bool
  notifying :: bool
  chr_value :: "byte list"
  notifications :: "byte list list"

definition set_radar_queue :: "relay \<Rightarrow> relay" where
  "set_radar_queue s = s\<lparr>radar_queue_set := True\<rparr>"

definition StartNotify :: "relay \<Rightarrow> relay" where
  "StartNotify s = (if notifying s then s else s\<lparr>notifying := True\<rparr>)"

definition StopNotify :: "relay \<Rightarrow> relay" where
  "StopNotify s = (if \<not> notifying s then s else s\<lparr>notifying := False\<rparr>)"

definition update_value :: "relay \<Rightarrow> byte list \<Rightarrow> relay" where
  "update_value s v =
     (let s' = s\<lparr>chr_value := v\<rparr>
      in if notifying s' then s'\<lparr>notifications := notifications s' @ [v]\<rparr> else s')"

text \<open>
  The loop \<^verbatim>\<open>while not q.empty(): targets = q.get_nowait()\<close>: it leaves the queue empty
  and keeps the batch taken last. Only this loop removes batches, so \<^verbatim>\<open>get_nowait\<close>
  never finds the queue empty and the \<^verbatim>\<open>except queue.Empty\<close> branch is not reached.
\<close>

fun drain_queue :: "batch list \<Rightarrow> batch option \<Rightarrow> batch option \<times> batch list" where
  "drain_queue [] targets = (targets, [])"
| "drain_queue (b # q) targets = drain_queue q (Some b)"

text \<open>
  \<^verbatim>\<open>RadarDataCharacteristic.update_radar_data\<close>, the 20 Hz tick: the result is what the
  call returned (\<^verbatim>\<open>True\<close>, or the exception that left it) and the state after it.
  \<^verbatim>\<open>sorted\<close> is stable, as \<open>sort_key\<close> is.
\<close>

definition update_radar_data :: "relay \<Rightarrow> (error + bool) \<times> relay" where
  "update_radar_data s =
     (if \<not> notifying s \<or> \<not> radar_queue_set s then (Inr True, s)
      else
        (case drain_queue (data_queue s) None of
           (targets, q') \<Rightarrow>
             let s' = s\<lparr>data_queue := q'\<rparr>
             in (case targets of
                   None \<Rightarrow> (Inr True, s')
                 | Some ts \<Rightarrow>
                     if ts = [] then (Inr True, s')
                     else
                       (case sort_key r_mm ts of
                          [] \<Rightarrow> (Inr True, s')
                        | target # _ \<Rightarrow>
                            (case pack_radar_data target of
                               Inl e \<Rightarrow> (Inl e, s')
                             | Inr packet \<Rightarrow> (Inr True, update_value s' packet))))))"


subsection \<open>Sample data for the relay\<close>

text \<open>
  A frame with two targets, the second one closer than the first, the targets it decodes
  to, the packet of the closer one, and a relay that is not notifying with one batch queued.
\<close>

definition two_target_frame :: "byte list" where
  "two_target_frame =
     [0xAA, 0xFF, 0x03, 0x00,
      0xB8, 0x8B, 0xA0, 0x8F, 0x32, 0x80, 0x68, 0x01,
      0x00, 0x00, 0xD0, 0x87, 0x00, 0x00, 0x00, 0x00,
      0, 0, 0, 0, 0, 0, 0, 0,
      0x55, 0xCC]"

definition far_target :: target where
  "far_target = \<lparr>target_id = 1, x_mm = 3000, y_mm = 4000, r_mm = 5000, speed_cm_s = 50,
                   dist_gate_mm = 360\<rparr>"

definition near_target :: target where
  "near_target = \<lparr>target_id = 2, x_mm = 0, y_mm = 2000, r_mm = 2000, speed_cm_s = 0,
                    dist_gate_mm = 0\<rparr>"

definition near_packet :: "byte list" where
  "near_packet = [0, 0, 0, 0, 0, 0, 192, 64, 0, 0, 0, 64, 0, 0, 240, 65, 85, 85, 85, 63, 2]"

definition idle_relay :: relay where
  "idle_relay = \<lparr>data_queue = [[far_target]], radar_queue_set = True, notifying = False,
                  chr_value = [], notifications = []\<rparr>"

section \<open>Properties of the frame synchronizer\<close>

subsection \<open>Searching the buffer\<close>

lemma occurs_at_bound: "sub \<noteq> [] \<Longrightarrow> occurs_at sub xs j \<Longrightarrow> j + length sub \<le> length xs"
proof -
  assume a: "sub \<noteq> []" "occurs_at sub xs j"
  then have "length (take (length sub) (drop j xs)) = length sub"
    by (simp add: occurs_at_def)
  then show ?thesis using a(1) by (cases sub) (auto simp: min_def split: if_splits)
qed

lemma occurs_at_Cons_Suc [simp]: "occurs_at sub (x # xs) (Suc j) = occurs_at sub xs j"
  by (simp add: occurs_at_def)

lemma find_bytes_Some_iff:
  "sub \<noteq> [] \<Longrightarrow>
   find_bytes xs sub = Some i \<longleftrightarrow> occurs_at sub xs i \<and> (\<forall>j<i. \<not> occurs_at sub xs j)"
proof (induction xs arbitrary: i)
  case Nil
  then show ?case by (auto simp: occurs_at_def)
next
  case (Cons b bs)
  show ?case
  proof (cases "take (length sub) (b # bs) = sub")
    case True
    then have "occurs_at sub (b # bs) 0" by (simp add: occurs_at_def)
    with True show ?thesis by auto
  next
    case False
    then have n0: "\<not> occurs_at sub (b # bs) 0" by (simp add: occurs_at_def)
    show ?thesis
    proof (cases i)
      case 0
      with False n0 show ?thesis by auto
    next
      case (Suc k)
      have "(\<forall>j<Suc k. \<not> occurs_at sub (b # bs) j) \<longleftrightarrow> (\<forall>j<k. \<not> occurs_at sub bs j)"
        using n0 by (auto simp: less_Suc_eq_0_disj)
      with False Suc Cons.IH [OF Cons.prems, of k] show ?thesis by auto
    qed
  qed
qed

lemma find_bytes_None_iff:
  "sub \<noteq> [] \<Longrightarrow> find_bytes xs sub = None \<longleftrightarrow> (\<forall>j. \<not> occurs_at sub xs j)"
proof (induction xs)
  case Nil
  then show ?case by (auto simp: occurs_at_def)
next
  case (Cons b bs)
  have "(\<forall>j. \<not> occurs_at sub (b # bs) j) \<longleftrightarrow>
        \<not> occurs_at sub (b # bs) 0 \<and> (\<forall>j. \<not> occurs_at sub bs j)"
    by (metis occurs_at_Cons_Suc not0_implies_Suc)
  with Cons show ?case by (auto simp: occurs_at_def)
qed

lemma occurs_at_append_left:
  "sub \<noteq> [] \<Longrightarrow> j + length sub \<le> length xs \<Longrightarrow> occurs_at sub (xs @ ys) j = occurs_at sub xs j"
  by (simp add: occurs_at_def)

lemma occurs_at_append_right:
  "occurs_at sub (xs @ ys) (length xs + j) = occurs_at sub ys j"
  by (simp add: occurs_at_def)

lemma find_bytes_append_Some:
  assumes "sub \<noteq> []" "find_bytes xs sub = Some i"
  shows "find_bytes (xs @ ys) sub = Some i"
proof -
  from assms have occ: "occurs_at sub xs i" and first: "\<forall>j<i. \<not> occurs_at sub xs j"
    by (simp_all add: find_bytes_Some_iff)
  from occ assms(1) have b: "i + length sub \<le> length xs" by (rule occurs_at_bound [rotated])
  have "occurs_at sub (xs @ ys) i"
    using occ b assms(1) by (simp add: occurs_at_append_left)
  moreover have "\<not> occurs_at sub (xs @ ys) j" if "j < i" for j
    using that first b assms(1) by (simp add: occurs_at_append_left)
  ultimately show ?thesis using assms(1) by (simp add: find_bytes_Some_iff)
qed

lemma find_bytes_skip_prefix:
  assumes "sub \<noteq> []" "\<forall>j<length g. \<not> occurs_at sub (g @ ys) j"
  shows "find_bytes (g @ ys) sub = map_option (\<lambda>i. length g + i) (find_bytes ys sub)"
proof (cases "find_bytes ys sub")
  case None
  then have "\<forall>j. \<not> occurs_at sub ys j" using assms(1) by (simp add: find_bytes_None_iff)
  then have "\<not> occurs_at sub (g @ ys) j" for j
    using assms(2) occurs_at_append_right [of sub g ys "j - length g"]
    by (cases "j < length g") auto
  then have "find_bytes (g @ ys) sub = None" using assms(1) by (simp add: find_bytes_None_iff)
  then show ?thesis using None by simp
next
  case (Some i)
  then have occ: "occurs_at sub ys i" and first: "\<forall>j<i. \<not> occurs_at sub ys j"
    using assms(1) by (simp_all add: find_bytes_Some_iff)
  have "occurs_at sub (g @ ys) (length g + i)"
    using occ by (simp add: occurs_at_append_right)
  moreover have "\<not> occurs_at sub (g @ ys) j" if "j < length g + i" for j
    using that assms(2) first occurs_at_append_right [of sub g ys "j - length g"]
    by (cases "j < length g") auto
  ultimately have "find_bytes (g @ ys) sub = Some (length g + i)"
    using assms(1) by (simp add: find_bytes_Some_iff)
  then show ?thesis using Some by simp
qed

subsection \<open>One round of the extraction loop\<close>

lemma FRAME_HEADER_nonempty [simp]: "FRAME_HEADER \<noteq> []" "length FRAME_HEADER = 4"
  by (simp_all add: FRAME_HEADER_def)

lemma extract_no_header:
  "find_bytes buffer FRAME_HEADER = None \<Longrightarrow>
   extract_frame_from_buffer buffer =
     (None, if length buffer > 3 then drop (length buffer - 3) buffer else buffer)"
  by (simp add: extract_frame_from_buffer.simps)

lemma extract_incomplete:
  "find_bytes buffer FRAME_HEADER = Some idx \<Longrightarrow> length buffer - idx < FRAME_LEN \<Longrightarrow>
   extract_frame_from_buffer buffer = (None, buffer)"
  by (simp add: extract_frame_from_buffer.simps)

lemma extract_complete_unfold:
  assumes "find_bytes buffer FRAME_HEADER = Some idx" "idx + FRAME_LEN \<le> length buffer"
  shows "extract_frame_from_buffer buffer =
     (if drop (FRAME_LEN - 2) (take FRAME_LEN (drop idx buffer)) \<noteq> FRAME_TAIL
      then extract_frame_from_buffer (drop (idx + FRAME_LEN) buffer)
      else (Some (take FRAME_LEN (drop idx buffer)), drop (idx + FRAME_LEN) buffer))"
proof -
  have nlt: "\<not> length buffer - idx < FRAME_LEN" using assms(2) by arith
  have len: "length (take FRAME_LEN (drop idx buffer)) = FRAME_LEN"
    using assms(2) by simp
  show ?thesis
    by (subst extract_frame_from_buffer.simps)
       (simp only: assms(1) option.case nlt if_False Let_def len)
qed

lemma extract_corrupt:
  "find_bytes buffer FRAME_HEADER = Some idx \<Longrightarrow> idx + FRAME_LEN \<le> length buffer \<Longrightarrow>
   drop (FRAME_LEN - 2) (take FRAME_LEN (drop idx buffer)) \<noteq> FRAME_TAIL \<Longrightarrow>
   extract_frame_from_buffer buffer = extract_frame_from_buffer (drop (idx + FRAME_LEN) buffer)"
  using extract_complete_unfold [of buffer idx] by simp

lemma extract_valid:
  "find_bytes buffer FRAME_HEADER = Some idx \<Longrightarrow> idx + FRAME_LEN \<le> length buffer \<Longrightarrow>
   drop (FRAME_LEN - 2) (take FRAME_LEN (drop idx buffer)) = FRAME_TAIL \<Longrightarrow>
   extract_frame_from_buffer buffer =
     (Some (take FRAME_LEN (drop idx buffer)), drop (idx + FRAME_LEN) buffer)"
  using extract_complete_unfold [of buffer idx] by simp

text \<open>The four ways one round of the loop can go.\<close>

lemma extract_cases [consumes 0, case_names no_header incomplete corrupt valid]:
  assumes "find_bytes buffer FRAME_HEADER = None \<Longrightarrow> P"
    and "\<And>idx. find_bytes buffer FRAME_HEADER = Some idx \<Longrightarrow> length buffer - idx < FRAME_LEN \<Longrightarrow> P"
    and "\<And>idx. find_bytes buffer FRAME_HEADER = Some idx \<Longrightarrow> idx + FRAME_LEN \<le> length buffer \<Longrightarrow>
           drop (FRAME_LEN - 2) (take FRAME_LEN (drop idx buffer)) \<noteq> FRAME_TAIL \<Longrightarrow> P"
    and "\<And>idx. find_bytes buffer FRAME_HEADER = Some idx \<Longrightarrow> idx + FRAME_LEN \<le> length buffer \<Longrightarrow>
           drop (FRAME_LEN - 2) (take FRAME_LEN (drop idx buffer)) = FRAME_TAIL \<Longrightarrow> P"
  shows P
proof (cases "find_bytes buffer FRAME_HEADER")
  case None
  then show ?thesis by (rule assms(1))
next
  case (Some idx)
  then have "idx + 4 \<le> length buffer"
    using occurs_at_bound [of FRAME_HEADER buffer idx] by (simp add: find_bytes_Some_iff)
  show ?thesis
  proof (cases "length buffer - idx < FRAME_LEN")
    case True
    with Some show ?thesis by (rule assms(2))
  next
    case False
    then have c: "idx + FRAME_LEN \<le> length buffer" by (simp add: FRAME_LEN_def)
    show ?thesis
      using assms(3) [OF Some c] assms(4) [OF Some c] by blast
  qed
qed

lemma extract_length_le:
  "length (snd (extract_frame_from_buffer buffer)) \<le> length buffer"
proof (induction buffer rule: length_induct)
  case (1 buffer)
  show ?case
  proof (cases buffer rule: extract_cases)
    case no_header
    then show ?thesis by (simp add: extract_no_header)
  next
    case (incomplete idx)
    then show ?thesis by (simp add: extract_incomplete)
  next
    case (corrupt idx)
    then have "length (drop (idx + FRAME_LEN) buffer) < length buffer"
      by (simp add: FRAME_LEN_def)
    with 1 have "length (snd (extract_frame_from_buffer (drop (idx + FRAME_LEN) buffer)))
        \<le> length (drop (idx + FRAME_LEN) buffer)" by blast
    with corrupt show ?thesis by (simp add: extract_corrupt)
  next
    case (valid idx)
    then show ?thesis by (simp add: extract_valid)
  qed
qed

lemma extract_Some_length:
  "extract_frame_from_buffer buffer = (Some frame, buffer') \<Longrightarrow>
   length buffer' + FRAME_LEN \<le> length buffer"
proof (induction buffer rule: length_induct)
  case (1 buffer)
  show ?case
  proof (cases buffer rule: extract_cases)
    case no_header
    with 1(2) show ?thesis by (simp add: extract_no_header)
  next
    case (incomplete idx)
    with 1(2) show ?thesis by (simp add: extract_incomplete)
  next
    case (corrupt idx)
    then have "length (drop (idx + FRAME_LEN) buffer) < length buffer"
      by (simp add: FRAME_LEN_def)
    moreover have "extract_frame_from_buffer (drop (idx + FRAME_LEN) buffer) = (Some frame, buffer')"
      using corrupt 1(2) by (simp add: extract_corrupt)
    ultimately have "length buffer' + FRAME_LEN \<le> length (drop (idx + FRAME_LEN) buffer)"
      using 1(1) by blast
    then show ?thesis by simp
  next
    case (valid idx)
    with 1(2) show ?thesis by (auto simp: extract_valid)
  qed
qed

lemma read_frame_empty_chunk [simp]:
  "read_frame buffer (Chunk []) = extract_frame_from_buffer buffer"
  by (simp add: read_frame_def)

text \<open>
  Calling \<^verbatim>\<open>read_frame\<close> with no new bytes until it returns no frame: the frames still in
  the buffer. Every returned frame removes 30 bytes, so the calls end.
\<close>

function drain_frames :: "byte list \<Rightarrow> byte list list" where
  "drain_frames buffer =
     (case read_frame buffer (Chunk []) of
        (None, buffer') \<Rightarrow> []
      | (Some frame, buffer') \<Rightarrow> frame # drain_frames buffer')"
  by pat_completeness auto
termination
proof (relation "measure length")
  show "wf (measure length)" by simp
next
  fix buffer :: "byte list" and x xa y
  assume "(x, xa) = read_frame buffer (Chunk [])" "x = Some y"
  then have "extract_frame_from_buffer buffer = (Some y, xa)" by simp
  from extract_Some_length [OF this] show "(xa, buffer) \<in> measure length"
    by (simp add: FRAME_LEN_def)
qed

declare drain_frames.simps [simp del]

lemma drain_frames_unfold:
  "drain_frames buffer =
     (case extract_frame_from_buffer buffer of
        (None, buffer') \<Rightarrow> []
      | (Some frame, buffer') \<Rightarrow> frame # drain_frames buffer')"
  by (subst drain_frames.simps) simp

subsection \<open>Buffers at rest, and appending behind a scanned prefix\<close>

lemma find_header_bound:
  "find_bytes buffer FRAME_HEADER = Some idx \<Longrightarrow> idx + 4 \<le> length buffer"
  using occurs_at_bound [of FRAME_HEADER buffer idx] by (simp add: find_bytes_Some_iff)

lemma short_quiescent: "length buffer \<le> 3 \<Longrightarrow> quiescent buffer"
  using find_header_bound [of buffer]
  by (cases "find_bytes buffer FRAME_HEADER") (auto simp: quiescent_def)

lemma quiescent_extract: "quiescent buffer \<Longrightarrow> extract_frame_from_buffer buffer = (None, buffer)"
  by (cases "find_bytes buffer FRAME_HEADER")
     (auto simp: quiescent_def extract_no_header extract_incomplete)

lemma extract_None_quiescent:
  "extract_frame_from_buffer buffer = (None, buffer') \<Longrightarrow> quiescent buffer'"
proof (induction buffer rule: length_induct)
  case (1 buffer)
  show ?case
  proof (cases buffer rule: extract_cases)
    case no_header
    with 1(2) have "buffer' = (if length buffer > 3 then drop (length buffer - 3) buffer else buffer)"
      by (simp add: extract_no_header)
    then have "length buffer' \<le> 3" by (simp split: if_splits)
    then show ?thesis by (rule short_quiescent)
  next
    case (incomplete idx)
    with 1(2) have "buffer' = buffer" by (simp add: extract_incomplete)
    with incomplete show ?thesis by (simp add: quiescent_def)
  next
    case (corrupt idx)
    then have "length (drop (idx + FRAME_LEN) buffer) < length buffer"
      by (simp add: FRAME_LEN_def)
    moreover have "extract_frame_from_buffer (drop (idx + FRAME_LEN) buffer) = (None, buffer')"
      using corrupt 1(2) by (simp add: extract_corrupt)
    ultimately show ?thesis using 1(1) by blast
  next
    case (valid idx)
    with 1(2) show ?thesis by (simp add: extract_valid)
  qed
qed

lemma extract_Nil [simp]: "extract_frame_from_buffer [] = (None, [])"
  by (simp add: extract_no_header)

lemma extract_append_complete:
  assumes "find_bytes X FRAME_HEADER = Some idx" "idx + FRAME_LEN \<le> length X"
  shows "extract_frame_from_buffer (X @ s) =
     (if drop (FRAME_LEN - 2) (take FRAME_LEN (drop idx X)) \<noteq> FRAME_TAIL
      then extract_frame_from_buffer (drop (idx + FRAME_LEN) X @ s)
      else (Some (take FRAME_LEN (drop idx X)), drop (idx + FRAME_LEN) X @ s))"
proof -
  have f: "find_bytes (X @ s) FRAME_HEADER = Some idx"
    using assms(1) by (simp add: find_bytes_append_Some)
  have c: "idx + FRAME_LEN \<le> length (X @ s)" using assms(2) by simp
  have t: "take FRAME_LEN (drop idx (X @ s)) = take FRAME_LEN (drop idx X)"
    using assms(2) by simp
  have d: "drop (idx + FRAME_LEN) (X @ s) = drop (idx + FRAME_LEN) X @ s"
    using assms(2) by simp
  show ?thesis
    unfolding extract_complete_unfold [OF f c] t d ..
qed

lemma quiescent_step:
  assumes "quiescent B" "extract_frame_from_buffer (B @ [b]) = (r, B')"
  shows "quiescent B'"
proof (cases r)
  case None
  with assms(2) show ?thesis by (auto intro: extract_None_quiescent)
next
  case (Some f)
  then have ex: "extract_frame_from_buffer (B @ [b]) = (Some f, B')"
    using assms(2) by simp
  show ?thesis
  proof (cases "find_bytes B FRAME_HEADER")
    case None
    with assms(1) have "length B \<le> 3" by (simp add: quiescent_def)
    moreover from ex have "length B' + FRAME_LEN \<le> length (B @ [b])"
      by (rule extract_Some_length)
    ultimately show ?thesis by (simp add: FRAME_LEN_def)
  next
    case (Some idx)
    with assms(1) have lt: "length B - idx < FRAME_LEN" by (simp add: quiescent_def)
    have f: "find_bytes (B @ [b]) FRAME_HEADER = Some idx"
      using Some by (simp add: find_bytes_append_Some)
    show ?thesis
    proof (cases "length (B @ [b]) - idx < FRAME_LEN")
      case True
      with f ex show ?thesis by (simp add: extract_incomplete)
    next
      case False
      with lt have c: "idx + FRAME_LEN \<le> length (B @ [b])"
        and e: "drop (idx + FRAME_LEN) (B @ [b]) = []"
        by (simp_all add: FRAME_LEN_def)
      from extract_complete_unfold [OF f c] ex e
      have "B' = []" by (auto split: if_splits)
      then show ?thesis by (simp add: short_quiescent)
    qed
  qed
qed

lemma drain_skip_prefix:
  assumes "\<forall>j<length g. \<not> occurs_at FRAME_HEADER (g @ Y) j"
  shows "drain_frames (g @ Y) = drain_frames Y"
proof -
  have f: "find_bytes (g @ Y) FRAME_HEADER =
      map_option (\<lambda>i. length g + i) (find_bytes Y FRAME_HEADER)"
    using assms by (simp add: find_bytes_skip_prefix)
  show ?thesis
  proof (cases "find_bytes Y FRAME_HEADER")
    case None
    with f show ?thesis
      by (simp add: drain_frames_unfold [of "g @ Y"] drain_frames_unfold [of Y] extract_no_header)
  next
    case (Some idx)
    with f have fg: "find_bytes (g @ Y) FRAME_HEADER = Some (length g + idx)" by simp
    show ?thesis
    proof (cases "length Y - idx < FRAME_LEN")
      case True
      then have "length (g @ Y) - (length g + idx) < FRAME_LEN" by simp
      with fg True Some show ?thesis
        by (simp add: drain_frames_unfold [of "g @ Y"] drain_frames_unfold [of Y]
            extract_incomplete)
    next
      case False
      then have c: "idx + FRAME_LEN \<le> length Y" by (simp add: FRAME_LEN_def)
      then have cg: "length g + idx + FRAME_LEN \<le> length (g @ Y)" by simp
      have "extract_frame_from_buffer (g @ Y) = extract_frame_from_buffer Y"
        unfolding extract_complete_unfold [OF fg cg] extract_complete_unfold [OF Some c]
        by (simp add: add.assoc)
      then show ?thesis
        by (simp add: drain_frames_unfold [of "g @ Y"] drain_frames_unfold [of Y])
    qed
  qed
qed

lemma drain_append:
  "drain_frames (X @ s) =
     emitted (fst (extract_frame_from_buffer X)) @
     drain_frames (snd (extract_frame_from_buffer X) @ s)"
proof (induction X rule: length_induct)
  case (1 X)
  show ?case
  proof (cases X rule: extract_cases)
    case no_header
    show ?thesis
    proof (cases "length X > 3")
      case False
      with no_header show ?thesis by (simp add: extract_no_header emitted_def)
    next
      case True
      define g where "g = take (length X - 3) X"
      define t where "t = drop (length X - 3) X"
      have X: "X = g @ t" by (simp add: g_def t_def)
      have lg: "length g = length X - 3" by (simp add: g_def)
      have "\<not> occurs_at FRAME_HEADER (g @ (t @ s)) j" if "j < length g" for j
      proof -
        from that lg True have "j + length FRAME_HEADER \<le> length X" by simp
        then have "occurs_at FRAME_HEADER (X @ s) j = occurs_at FRAME_HEADER X j"
          by (simp add: occurs_at_append_left)
        moreover have "\<not> occurs_at FRAME_HEADER X j"
          using no_header by (simp add: find_bytes_None_iff)
        ultimately show ?thesis using X by simp
      qed
      then have "drain_frames (g @ (t @ s)) = drain_frames (t @ s)"
        by (intro drain_skip_prefix) simp
      moreover have "extract_frame_from_buffer X = (None, t)"
        using no_header True by (simp add: extract_no_header t_def)
      ultimately show ?thesis using X by (simp add: emitted_def)
    qed
  next
    case (incomplete idx)
    then show ?thesis by (simp add: extract_incomplete emitted_def)
  next
    case (corrupt idx)
    let ?X' = "drop (idx + FRAME_LEN) X"
    have "length ?X' < length X" using corrupt by (simp add: FRAME_LEN_def)
    with 1 have IH: "drain_frames (?X' @ s) =
        emitted (fst (extract_frame_from_buffer ?X')) @
        drain_frames (snd (extract_frame_from_buffer ?X') @ s)" by blast
    have "extract_frame_from_buffer (X @ s) = extract_frame_from_buffer (?X' @ s)"
      using corrupt by (simp add: extract_append_complete)
    then have "drain_frames (X @ s) = drain_frames (?X' @ s)"
      by (simp add: drain_frames_unfold [of "X @ s"] drain_frames_unfold [of "?X' @ s"])
    moreover have "extract_frame_from_buffer X = extract_frame_from_buffer ?X'"
      using corrupt by (simp add: extract_corrupt)
    ultimately show ?thesis using IH by simp
  next
    case (valid idx)
    let ?X' = "drop (idx + FRAME_LEN) X"
    let ?f = "take FRAME_LEN (drop idx X)"
    have "extract_frame_from_buffer (X @ s) = (Some ?f, ?X' @ s)"
      using valid by (simp add: extract_append_complete)
    then have "drain_frames (X @ s) = ?f # drain_frames (?X' @ s)"
      by (simp add: drain_frames_unfold [of "X @ s"])
    moreover have "extract_frame_from_buffer X = (Some ?f, ?X')"
      using valid by (simp add: extract_valid)
    ultimately show ?thesis by (simp add: emitted_def)
  qed
qed

lemma bytewise_drain:
  "quiescent B \<Longrightarrow> fst (feed_chunks B (map (\<lambda>b. Chunk [b]) s)) = drain_frames (B @ s)"
proof (induction s arbitrary: B)
  case Nil
  then show ?case
    by (simp add: drain_frames_unfold [of B] quiescent_extract)
next
  case (Cons b s)
  obtain r B' where ex: "extract_frame_from_buffer (B @ [b]) = (r, B')"
    by (cases "extract_frame_from_buffer (B @ [b])")
  from quiescent_step [OF Cons.prems ex] have q: "quiescent B'" .
  have "fst (feed_chunks B (map (\<lambda>b. Chunk [b]) (b # s))) =
      emitted r @ fst (feed_chunks B' (map (\<lambda>b. Chunk [b]) s))"
    using ex by (simp add: read_frame_def split: prod.splits)
  also have "\<dots> = emitted r @ drain_frames (B' @ s)"
    using Cons.IH [OF q] by simp
  also have "\<dots> = drain_frames ((B @ [b]) @ s)"
    using drain_append [of "B @ [b]" s] ex by simp
  finally show ?case by simp
qed

lemma valid_sample_frame: "valid_frame sample_frame"
  by (simp add: valid_frame_def sample_frame_def FRAME_LEN_def FRAME_HEADER_def FRAME_TAIL_def)

lemma find_header_prefix:
  assumes "take 4 xs = FRAME_HEADER"
  shows "find_bytes xs FRAME_HEADER = Some 0"
proof -
  have "occurs_at FRAME_HEADER xs 0" using assms by (simp add: occurs_at_def)
  then show ?thesis by (simp add: find_bytes_Some_iff)
qed

lemma extract_corrupt_window:
  assumes "length w = FRAME_LEN" "take 4 w = FRAME_HEADER" "drop (FRAME_LEN - 2) w \<noteq> FRAME_TAIL"
  shows "extract_frame_from_buffer (w @ rest) = extract_frame_from_buffer rest"
proof -
  have f: "find_bytes (w @ rest) FRAME_HEADER = Some 0"
    using assms(1,2) by (intro find_header_prefix) (simp add: FRAME_LEN_def)
  have c: "0 + FRAME_LEN \<le> length (w @ rest)" using assms(1) by simp
  show ?thesis
    using extract_complete_unfold [OF f c] assms by simp
qed

lemma extract_valid_window:
  assumes "valid_frame w"
  shows "extract_frame_from_buffer (w @ rest) = (Some w, rest)"
proof -
  from assms have l: "length w = FRAME_LEN" and h: "take 4 w = FRAME_HEADER"
    and t: "drop (FRAME_LEN - 2) w = FRAME_TAIL" by (simp_all add: valid_frame_def)
  have f: "find_bytes (w @ rest) FRAME_HEADER = Some 0"
    using l h by (intro find_header_prefix) (simp add: FRAME_LEN_def)
  have c: "0 + FRAME_LEN \<le> length (w @ rest)" using l by simp
  show ?thesis
    using extract_complete_unfold [OF f c] l t by simp
qed

lemma drain_valid_window:
  "valid_frame w \<Longrightarrow> drain_frames (w @ rest) = w # drain_frames rest"
  by (simp add: drain_frames_unfold [of "w @ rest"] extract_valid_window)

lemma drain_Nil [simp]: "drain_frames [] = []"
  by (simp add: drain_frames_unfold [of "[]"])

lemma concat_replicate_commute: "concat (replicate m F) @ F = F @ concat (replicate m F)"
  by (induction m) simp_all

lemma feed_chunks_snd_Cons:
  "snd (feed_chunks B (r # rs)) = snd (feed_chunks (snd (read_frame B r)) rs)"
  by (simp split: prod.splits)

lemma feed_chunks_fst_Cons:
  "fst (feed_chunks B (r # rs)) =
     emitted (fst (read_frame B r)) @ fst (feed_chunks (snd (read_frame B r)) rs)"
  by (simp split: prod.splits)

lemma backlog_grows:
  assumes "valid_frame F"
  shows "snd (feed_chunks (concat (replicate m F)) (replicate k (Chunk (F @ F)))) =
         concat (replicate (m + k) F)"
proof (induction k arbitrary: m)
  case 0
  then show ?case by simp
next
  case (Suc k)
  have ne: "F @ F \<noteq> []" using assms by (auto simp: valid_frame_def FRAME_LEN_def)
  have "concat (replicate m F) @ F @ F = F @ concat (replicate (Suc m) F)"
    using concat_replicate_commute [of m F] concat_replicate_commute [of "Suc m" F]
    by (metis append.assoc concat.simps(2) replicate_Suc)
  then have "read_frame (concat (replicate m F)) (Chunk (F @ F)) =
      (Some F, concat (replicate (Suc m) F))"
    using ne extract_valid_window [OF assms, of "concat (replicate (Suc m) F)"]
    by (simp add: read_frame_def)
  then have "snd (feed_chunks (concat (replicate m F)) (replicate (Suc k) (Chunk (F @ F)))) =
      snd (feed_chunks (concat (replicate (Suc m) F)) (replicate k (Chunk (F @ F))))"
    by (simp only: replicate_Suc feed_chunks_snd_Cons snd_conv)
  then show ?case using Suc.IH [of "Suc m"] by simp
qed

section \<open>Properties of the rounding\<close>

text \<open>
  What the proofs below use of IEEE rounding: the rounded value is within half a unit in
  the last place of the exact one, integers below \<open>2^p\<close> are represented exactly, and the
  integer part of a rounded square root is that of the exact root.
\<close>

lemma round_half_even_error: "\<bar>of_int (round_half_even x) - x\<bar> \<le> 1 / 2"
proof -
  have "of_int \<lfloor>x\<rfloor> \<le> x" "x < of_int \<lfloor>x\<rfloor> + 1" by linarith+
  then show ?thesis
    by (auto simp: round_half_even_def Let_def)
qed

lemma round_half_even_of_int [simp]: "round_half_even (of_int n) = n"
  by (simp add: round_half_even_def)

lemma floor_log2_bounds:
  assumes "0 < x"
  shows "2 powi (floor_log2 x) \<le> x" and "x < 2 powi (floor_log2 x + 1)"
proof -
  have "2 powi (floor_log2 x) \<le> x \<and> x < 2 powi (floor_log2 x + 1)"
  proof (cases "1 \<le> x")
    case True
    define n where "n = \<lfloor>x\<rfloor>"
    have n: "1 \<le> n" "of_int n \<le> x" "x < of_int n + 1"
    proof -
      show "1 \<le> n" using True by (simp add: n_def le_floor_iff)
      show "of_int n \<le> x" by (simp add: n_def)
      show "x < of_int n + 1" unfolding n_def by linarith
    qed
    define b where "b = bitlen n"
    have bb: "2 ^ nat (b - 1) \<le> n" "n < 2 ^ nat b"
      using bitlen_bounds [of n] n(1) by (simp_all add: b_def)
    have b1: "1 \<le> b"
    proof (rule ccontr)
      assume "\<not> 1 \<le> b"
      then have "nat b = 0" by simp
      with bb(2) n(1) show False by simp
    qed
    have fl: "floor_log2 x = b - 1" using True by (simp add: floor_log2_def n_def b_def)
    have "(2::real) powi (b - 1) = 2 ^ nat (b - 1)"
      using b1 by (simp add: power_int_nonneg_exp)
    also have "\<dots> = of_int (2 ^ nat (b - 1))" by simp
    also have "\<dots> \<le> of_int n" using bb(1) by (simp only: of_int_le_iff)
    finally have lo: "2 powi (b - 1) \<le> x" using n(2) by linarith
    have "n + 1 \<le> 2 ^ nat b" using bb(2) by simp
    then have "(of_int (n + 1) :: real) \<le> of_int (2 ^ nat b)" by (simp only: of_int_le_iff)
    then have "of_int n + 1 \<le> (2::real) ^ nat b" by simp
    also have "\<dots> = 2 powi b" using b1 by (simp add: power_int_nonneg_exp)
    finally have hi: "x < 2 powi b" using n(3) by linarith
    from lo hi fl show ?thesis by simp
  next
    case False
    define y where "y = 1 / x"
    have y1: "1 < y" and xy: "x = 1 / y" using False assms by (simp_all add: y_def)
    define c where "c = \<lceil>y\<rceil>"
    have c: "y \<le> of_int c" "of_int c - 1 < y"
    proof -
      show "y \<le> of_int c" by (simp add: c_def)
      show "of_int c - 1 < y" unfolding c_def by linarith
    qed
    from y1 c(1) have "1 < (of_int c :: real)" by linarith
    then have c2: "2 \<le> c" by simp
    define b where "b = bitlen (c - 1)"
    have bb: "2 ^ nat (b - 1) \<le> c - 1" "c - 1 < 2 ^ nat b"
      using bitlen_bounds [of "c - 1"] c2 by (simp_all add: b_def)
    have b1: "1 \<le> b"
    proof (rule ccontr)
      assume "\<not> 1 \<le> b"
      then have "nat b = 0" by simp
      with bb(2) c2 show False by simp
    qed
    have fl: "floor_log2 x = - b"
      using False by (simp add: floor_log2_def y_def c_def b_def)
    have "c \<le> 2 ^ nat b" using bb(2) by simp
    then have "(of_int c :: real) \<le> of_int (2 ^ nat b)" by (simp only: of_int_le_iff)
    then have "(of_int c :: real) \<le> 2 ^ nat b" by simp
    with c(1) have "y \<le> 2 ^ nat b" by linarith
    also have "\<dots> = 2 powi b" using b1 by (simp add: power_int_nonneg_exp)
    finally have yb: "y \<le> 2 powi b" .
    have "(of_int (2 ^ nat (b - 1)) :: real) \<le> of_int (c - 1)"
      using bb(1) by (simp only: of_int_le_iff)
    then have "(2::real) ^ nat (b - 1) < y" using c(2) by simp
    moreover have "(2::real) ^ nat (b - 1) = 2 powi (b - 1)"
      using b1 by (simp add: power_int_nonneg_exp)
    ultimately have by': "2 powi (b - 1) < y" by simp
    have pos: "0 < (2::real) powi b" "0 < (2::real) powi (b - 1)" by simp_all
    have lo: "2 powi (- b) \<le> x"
      using yb y1 pos(1) by (simp add: xy power_int_minus field_simps)
    have "x < 1 / 2 powi (b - 1)"
      using by' y1 pos(2) by (simp add: xy field_simps)
    also have "\<dots> = 2 powi (- (b - 1))" by (simp only: power_int_minus_divide)
    also have "- (b - 1) = - b + 1" by simp
    finally have hi: "x < 2 powi (- b + 1)" .
    from lo hi fl show ?thesis by simp
  qed
  then show "2 powi (floor_log2 x) \<le> x" and "x < 2 powi (floor_log2 x + 1)" by simp_all
qed

lemma powi2_less_exp: "(2::real) powi m < 2 powi n \<Longrightarrow> m < n"
proof (rule ccontr)
  assume a: "(2::real) powi m < 2 powi n" and "\<not> m < n"
  then have "n \<le> m" by simp
  then have "(2::real) powi n \<le> 2 powi m" by (intro power_int_increasing) simp_all
  with a show False by simp
qed

lemma fl_round_abs_error:
  assumes "x \<noteq> 0"
  shows "\<bar>fl_round p emin x - x\<bar> \<le> 2 powi (max (floor_log2 \<bar>x\<bar>) emin - int p)"
proof -
  define e where "e = max (floor_log2 \<bar>x\<bar>) emin"
  define ulp :: real where "ulp = 2 powi (e - int p + 1)"
  have pos: "0 < ulp" by (simp add: ulp_def)
  have f: "fl_round p emin x = of_int (round_half_even (x / ulp)) * ulp"
    using assms by (simp add: fl_round_def Let_def e_def ulp_def)
  have "\<bar>of_int (round_half_even (x / ulp)) - x / ulp\<bar> * ulp \<le> 1 / 2 * ulp"
    using round_half_even_error [of "x / ulp"] pos by (intro mult_right_mono) simp_all
  moreover have "\<bar>of_int (round_half_even (x / ulp)) - x / ulp\<bar> * ulp =
      \<bar>of_int (round_half_even (x / ulp)) * ulp - x\<bar>"
  proof -
    have "(of_int (round_half_even (x / ulp)) - x / ulp) * ulp =
        of_int (round_half_even (x / ulp)) * ulp - x"
      using pos by (simp add: field_simps)
    then show ?thesis by (metis abs_mult abs_of_pos pos)
  qed
  moreover have "1 / 2 * ulp = 2 powi (e - int p)"
    by (simp add: ulp_def power_int_add)
  ultimately show ?thesis by (simp add: f e_def)
qed

lemma fl_round_rel_error:
  assumes "2 powi emin \<le> \<bar>x\<bar>"
  shows "\<bar>fl_round p emin x - x\<bar> \<le> \<bar>x\<bar> * 2 powi (- int p)"
proof -
  have "(0::real) < 2 powi emin" by simp
  with assms have "0 < \<bar>x\<bar>" by linarith
  then have x0: "x \<noteq> 0" "0 < \<bar>x\<bar>" by auto
  have "(2::real) powi emin < 2 powi (floor_log2 \<bar>x\<bar> + 1)"
    using floor_log2_bounds(2) [OF x0(2)] assms by linarith
  then have "emin < floor_log2 \<bar>x\<bar> + 1"
    by (rule powi2_less_exp)
  then have m: "max (floor_log2 \<bar>x\<bar>) emin = floor_log2 \<bar>x\<bar>" by simp
  have "\<bar>fl_round p emin x - x\<bar> \<le> 2 powi (floor_log2 \<bar>x\<bar> - int p)"
    using fl_round_abs_error [OF x0(1), of p emin] m by simp
  also have "\<dots> = 2 powi (floor_log2 \<bar>x\<bar>) * 2 powi (- int p)"
    by (simp add: power_int_diff power_int_minus field_simps)
  also have "\<dots> \<le> \<bar>x\<bar> * 2 powi (- int p)"
    using floor_log2_bounds(1) [OF x0(2)] by (intro mult_right_mono) simp_all
  finally show ?thesis .
qed

lemma fl_round_of_int:
  assumes "\<bar>n\<bar> < 2 ^ p" "emin \<le> 0" "0 < p"
  shows "fl_round p emin (of_int n) = of_int n"
proof (cases "n = 0")
  case True
  then show ?thesis by (simp add: fl_round_def)
next
  case False
  define e where "e = max (floor_log2 \<bar>of_int n\<bar>) emin"
  have npos: "0 < \<bar>of_int n :: real\<bar>" using False by simp
  have "(2::real) powi (floor_log2 \<bar>of_int n\<bar>) \<le> \<bar>of_int n\<bar>"
    using floor_log2_bounds(1) [OF npos] .
  also have "\<bar>of_int n :: real\<bar> = of_int \<bar>n\<bar>" by simp
  also have "(of_int \<bar>n\<bar> :: real) < of_int (2 ^ p)"
    using assms(1) by (simp only: of_int_less_iff)
  also have "(of_int (2 ^ p) :: real) = 2 powi (int p)" by simp
  finally have "floor_log2 \<bar>of_int n\<bar> < int p"
    by (rule powi2_less_exp)
  then have ep: "e \<le> int p - 1" using assms(2,3) by (simp add: e_def)
  define k where "k = nat (int p - 1 - e)"
  have ulp: "(2::real) powi (e - int p + 1) = 1 / 2 ^ k"
  proof -
    have "e - int p + 1 = - int k" using ep by (simp add: k_def)
    then have "(2::real) powi (e - int p + 1) = 2 powi (- int k)" by (simp only:)
    also have "\<dots> = inverse (2 powi (int k))" by (rule power_int_minus)
    also have "\<dots> = 1 / 2 ^ k" by (simp add: inverse_eq_divide)
    finally show ?thesis .
  qed
  have "of_int n / (1 / 2 ^ k) = (of_int (n * 2 ^ k) :: real)" by simp
  then have "round_half_even (of_int n / (1 / 2 ^ k)) = n * 2 ^ k"
    by (simp only: round_half_even_of_int)
  then show ?thesis
    using False by (simp add: fl_round_def Let_def e_def [symmetric] ulp)
qed

lemma fl64_of_int: "\<bar>n\<bar> < 2 ^ 53 \<Longrightarrow> fl64 (of_int n) = of_int n"
  unfolding fl64_def by (rule fl_round_of_int) simp_all

lemma fl64_rel_error:
  assumes "2 powi (- 1022) \<le> \<bar>x\<bar>"
  shows "\<bar>fl64 x - x\<bar> \<le> \<bar>x\<bar> / 2 ^ 53"
proof -
  have "\<bar>fl64 x - x\<bar> \<le> \<bar>x\<bar> * 2 powi (- int 53)"
    unfolding fl64_def using assms by (rule fl_round_rel_error)
  also have "(2::real) powi (- int 53) = 1 / 2 ^ 53"
    by (simp add: power_int_minus_divide)
  finally show ?thesis by simp
qed

lemma float_of_int_exact: "\<bar>n\<bar> < 2 ^ 53 \<Longrightarrow> float_of_int n = Inr (of_int n)"
proof -
  assume a: "\<bar>n\<bar> < 2 ^ 53"
  then have "(of_int \<bar>n\<bar> :: real) < of_int (2 ^ 53)" by (simp only: of_int_less_iff)
  then have "\<bar>of_int n :: real\<bar> < 2 ^ 53" by simp
  also have "(2::real) ^ 53 \<le> 2 ^ 1024" by (intro power_increasing) simp_all
  finally have "\<not> 2 ^ 1024 \<le> \<bar>of_int n :: real\<bar>" by simp
  with a show ?thesis by (simp add: float_of_int_def Let_def fl64_of_int)
qed

lemma floor_fl64_sqrt:
  fixes m :: int
  assumes "0 \<le> m" "m < 2 ^ 50"
  shows "\<lfloor>fl64 (sqrt (of_int m))\<rfloor> = \<lfloor>sqrt (of_int m)\<rfloor>"
proof -
  define s :: real where "s = sqrt (of_int m)"
  define k where "k = \<lfloor>s\<rfloor>"
  have s0: "0 \<le> s" and ss: "s * s = of_int m"
    using assms(1) by (simp_all add: s_def)
  have k: "of_int k \<le> s" "s < of_int k + 1"
    unfolding k_def by linarith+
  have k0: "0 \<le> k" using s0 by (simp add: k_def)
  have mlt: "(of_int m :: real) < 2 ^ 50"
  proof -
    have "(of_int m :: real) < of_int (2 ^ 50)" using assms(2) by (simp only: of_int_less_iff)
    then show ?thesis by simp
  qed
  show ?thesis
  proof (cases "of_int k = s")
    case True
    have "(of_int k :: real) * of_int k < 2 ^ 50" using True ss mlt by simp
    then have "(of_int (k * k) :: real) < of_int (2 ^ 50)" by simp
    then have "k * k < 2 ^ 50" by (simp only: of_int_less_iff)
    moreover have "k \<le> k * k" using k0 by (cases "k = 0") (simp_all add: mult_le_cancel_left1)
    ultimately have "\<bar>k\<bar> < 2 ^ 53" using k0 by simp
    then have "fl64 (of_int k) = of_int k" by (rule fl64_of_int)
    then have "fl64 s = of_int k" using True by simp
    then show ?thesis by (simp add: s_def [symmetric] k_def [symmetric])
  next
    case False
    with k(1) have klt: "of_int k < s" by simp
    have "(of_int (k * k) :: real) < of_int m"
    proof -
      have "(of_int k :: real) * of_int k < s * s"
        using klt k0 by (intro mult_strict_mono') simp_all
      then show ?thesis using ss by simp
    qed
    then have "k * k < m" by (simp only: of_int_less_iff)
    then have "k * k + 1 \<le> m" by simp
    then have "(of_int (k * k + 1) :: real) \<le> of_int m" by (simp only: of_int_le_iff)
    then have low: "of_int k * of_int k + 1 \<le> s * s" using ss by simp
    have "(of_int m :: real) < of_int ((k + 1) * (k + 1))"
    proof -
      have "s * s < (of_int k + 1) * (of_int k + 1)"
        using k(2) s0 by (intro mult_strict_mono') simp_all
      then show ?thesis using ss by simp
    qed
    then have "m < (k + 1) * (k + 1)" by (simp only: of_int_less_iff)
    then have "m + 1 \<le> (k + 1) * (k + 1)" by simp
    then have "(of_int (m + 1) :: real) \<le> of_int ((k + 1) * (k + 1))"
      by (simp only: of_int_le_iff)
    then have high: "s * s + 1 \<le> (of_int k + 1) * (of_int k + 1)" using ss by simp
    have s1: "1 \<le> s"
    proof (rule ccontr)
      assume "\<not> 1 \<le> s"
      then have "s * s \<le> s * 1" using s0 by (intro mult_left_mono) simp_all
      moreover have "0 \<le> (of_int k :: real) * of_int k" by simp
      ultimately show False using low \<open>\<not> 1 \<le> s\<close> by linarith
    qed
    have "2 powi (- 1022) \<le> (1::real)" by (simp add: power_int_minus_divide)
    with s1 have "2 powi (- 1022) \<le> \<bar>s\<bar>" by simp
    from fl64_rel_error [OF this] s0 have err: "\<bar>fl64 s - s\<bar> \<le> s / 2 ^ 53" by simp
    have s2: "s * s < 2 ^ 50" using ss mlt by simp
    have spos: "0 < 2 * s" "0 < 3 * s" using s1 by simp_all
    have d1: "s / 2 ^ 53 \<le> s - of_int k"
    proof -
      have "1 \<le> (s - of_int k) * (s + of_int k)" using low by (simp add: algebra_simps)
      also have "\<dots> \<le> (s - of_int k) * (2 * s)"
        using klt k(1) by (intro mult_left_mono) simp_all
      finally have A: "1 \<le> (s - of_int k) * (2 * s)" .
      have "s / 2 ^ 53 * (2 * s) = 2 * (s * s) / 2 ^ 53" by simp
      also have "\<dots> \<le> 1" using s2 by simp
      finally have "s / 2 ^ 53 * (2 * s) \<le> (s - of_int k) * (2 * s)" using A by linarith
      then show ?thesis using spos(1) by (simp only: mult_le_cancel_right_pos)
    qed
    have d2: "s / 2 ^ 53 < of_int k + 1 - s"
    proof -
      have "1 \<le> (of_int k + 1 - s) * (of_int k + 1 + s)" using high by (simp add: algebra_simps)
      also have "\<dots> \<le> (of_int k + 1 - s) * (3 * s)"
        using k s1 by (intro mult_left_mono) simp_all
      finally have A: "1 \<le> (of_int k + 1 - s) * (3 * s)" .
      have "s / 2 ^ 53 * (3 * s) = 3 * (s * s) / 2 ^ 53" by simp
      also have "\<dots> < 1" using s2 by simp
      finally have "s / 2 ^ 53 * (3 * s) < (of_int k + 1 - s) * (3 * s)" using A by linarith
      then show ?thesis using spos(2) by (simp only: mult_less_cancel_right_pos)
    qed
    have "of_int k \<le> fl64 s" "fl64 s < of_int k + 1"
      using err d1 d2 by linarith+
    then have "\<lfloor>fl64 s\<rfloor> = k" by (intro floor_unique)
    then show ?thesis by (simp add: s_def [symmetric] k_def [symmetric])
  qed
qed

section \<open>Properties of the target decoder\<close>

lemma decode_signed_mag_bit:
  "decode_signed_mag u =
     (if u = 0 then 0 else if bit u 15 then u AND 0x7FFF else - (u AND 0x7FFF))"
proof -
  have "(u AND 0x8000 \<noteq> 0) = bit u 15"
    using bit_iff_and_push_bit_not_eq_0 [of u 15] by simp
  then show ?thesis by (simp add: decode_signed_mag_def Let_def)
qed

lemma decode_signed_mag_bound: "\<bar>decode_signed_mag u\<bar> \<le> 32767"
proof -
  have "0 \<le> u AND 0x7FFF" "u AND 0x7FFF \<le> 0x7FFF"
    by (simp_all add: AND_upper2')
  then show ?thesis by (simp add: decode_signed_mag_def Let_def)
qed

lemma u16_le_bounds: "0 \<le> u16_le lo hi" "u16_le lo hi \<le> 65535"
proof -
  have "uint lo < 256" "uint hi < 256"
    using uint_bounded [of lo] uint_bounded [of hi] by simp_all
  then show "0 \<le> u16_le lo hi" "u16_le lo hi \<le> 65535"
    by (simp_all add: u16_le_def)
qed

lemma hypot_decoded:
  assumes "\<bar>x\<bar> \<le> 32767" "\<bar>y\<bar> \<le> 32767"
  shows "\<exists>h. hypot x y = Inr h \<and> int_of_float h = Inr \<lfloor>sqrt (of_int (x * x + y * y))\<rfloor>"
proof -
  define m where "m = x * x + y * y"
  have fx: "float_of_int x = Inr (of_int x)" and fy: "float_of_int y = Inr (of_int y)"
    using assms by (simp_all add: float_of_int_exact)
  have xx: "x * x \<le> 32767 * 32767" "y * y \<le> 32767 * 32767"
    using assms mult_mono [of "\<bar>x\<bar>" 32767 "\<bar>x\<bar>" 32767] mult_mono [of "\<bar>y\<bar>" 32767 "\<bar>y\<bar>" 32767]
    by (simp_all add: abs_mult_self_eq)
  have m: "0 \<le> m" "m < 2 ^ 50" using xx by (simp_all add: m_def)
  define h where "h = fl64 (sqrt (of_int m))"
  have hyp: "hypot x y = Inr h"
    by (simp add: hypot_def fx fy h_def m_def)
  have fl: "\<lfloor>h\<rfloor> = \<lfloor>sqrt (of_int m)\<rfloor>"
    unfolding h_def using m by (rule floor_fl64_sqrt)
  have "0 \<le> \<lfloor>sqrt (of_int m :: real)\<rfloor>" using m(1) by simp
  with fl have "0 \<le> \<lfloor>h\<rfloor>" by simp
  then have h0: "0 \<le> h" by (simp only: zero_le_floor)
  have "(of_int m :: real) \<le> of_int (2 ^ 50)"
    using m(2) by (simp only: of_int_le_iff less_imp_le)
  then have "sqrt (of_int m) \<le> (2::real) ^ 25"
    by (intro real_le_lsqrt) simp_all
  then have "\<lfloor>sqrt (of_int m :: real)\<rfloor> \<le> 2 ^ 25"
    by (simp add: floor_le_iff)
  with fl have "\<lfloor>h\<rfloor> \<le> 2 ^ 25" by simp
  then have "(of_int \<lfloor>h\<rfloor> :: real) \<le> of_int (2 ^ 25)" by (simp only: of_int_le_iff)
  moreover have "h < of_int \<lfloor>h\<rfloor> + 1" by linarith
  ultimately have "h < 2 ^ 25 + 1" by simp
  also have "(2::real) ^ 25 + 1 \<le> 2 ^ 1024" by simp
  finally have "\<not> 2 ^ 1024 \<le> \<bar>h\<bar>" using h0 by simp
  then have "int_of_float h = Inr \<lfloor>h\<rfloor>" using h0 by (simp add: int_of_float_def)
  with hyp fl show ?thesis by (auto simp: m_def)
qed

lemma length8E:
  assumes "length (xs :: 'a list) = 8"
  obtains b0 b1 b2 b3 b4 b5 b6 b7 where "xs = [b0, b1, b2, b3, b4, b5, b6, b7]"
  using assms by (auto simp: length_Suc_conv numeral_eq_Suc)

lemma unpack_HHHH_8:
  assumes "length segment = 8"
  shows "unpack_HHHH segment =
     Inr (u16_le (segment ! 0) (segment ! 1), u16_le (segment ! 2) (segment ! 3),
          u16_le (segment ! 4) (segment ! 5), u16_le (segment ! 6) (segment ! 7))"
proof -
  from assms obtain b0 b1 b2 b3 b4 b5 b6 b7 where "segment = [b0, b1, b2, b3, b4, b5, b6, b7]"
    by (rule length8E)
  then show ?thesis by simp
qed

lemma parse_loop_step:
  assumes "length (take 8 (drop offset frame)) = 8" "offset = 4 + 8 * idx"
  shows "parse_loop frame (idx # idxs) offset targets =
         parse_loop frame idxs (offset + 8) (targets @ slot_targets frame idx)"
proof (cases "take 8 (drop offset frame) = replicate 8 0")
  case True
  with assms(2) show ?thesis by (simp add: slot_targets_def slot_segment_def)
next
  case False
  define seg where "seg = take 8 (drop offset frame)"
  let ?x = "decode_signed_mag (u16_le (seg ! 0) (seg ! 1))"
  let ?y = "decode_signed_mag (u16_le (seg ! 2) (seg ! 3))"
  obtain h where h: "hypot ?x ?y = Inr h"
      "int_of_float h = Inr \<lfloor>sqrt (of_int (?x * ?x + ?y * ?y))\<rfloor>"
    using hypot_decoded [OF decode_signed_mag_bound decode_signed_mag_bound] by blast
  have seg: "slot_segment frame idx = seg" using assms(2) by (simp add: slot_segment_def seg_def)
  have u: "unpack_HHHH seg =
     Inr (u16_le (seg ! 0) (seg ! 1), u16_le (seg ! 2) (seg ! 3),
          u16_le (seg ! 4) (seg ! 5), u16_le (seg ! 6) (seg ! 7))"
    using assms(1) by (intro unpack_HHHH_8) (simp add: seg_def)
  have "parse_loop frame (idx # idxs) offset targets =
      parse_loop frame idxs (offset + 8) (targets @ [make_target idx seg])"
    using False h u
    by (simp add: seg_def [symmetric] make_target_def Let_def del: unpack_HHHH.simps)
  then show ?thesis using False seg by (simp add: slot_targets_def seg_def)
qed

lemma upt_targets: "[0..<TARGETS_PER_FRAME] = [0, 1, 2]"
  unfolding TARGETS_PER_FRAME_def by code_simp

lemma parse_targets_slots:
  assumes "length frame = FRAME_LEN"
  shows "parse_targets frame =
         Inr (slot_targets frame 0 @ slot_targets frame 1 @ slot_targets frame 2)"
proof -
  have "parse_targets frame = parse_loop frame [0, 1, 2] 4 []"
    using assms unfolding parse_targets_def upt_targets by (simp del: parse_loop.simps)
  also have "\<dots> = parse_loop frame [1, 2] (4 + 8) ([] @ slot_targets frame 0)"
    by (rule parse_loop_step) (simp_all add: assms FRAME_LEN_def)
  also have "\<dots> = parse_loop frame [1, 2] 12 (slot_targets frame 0)"
    by (simp del: parse_loop.simps)
  also have "\<dots> = parse_loop frame [2] (12 + 8) (slot_targets frame 0 @ slot_targets frame 1)"
    by (rule parse_loop_step) (simp_all add: assms FRAME_LEN_def)
  also have "\<dots> = parse_loop frame [2] 20 (slot_targets frame 0 @ slot_targets frame 1)"
    by (simp del: parse_loop.simps)
  also have "\<dots> = parse_loop frame [] (20 + 8)
      ((slot_targets frame 0 @ slot_targets frame 1) @ slot_targets frame 2)"
    by (rule parse_loop_step) (simp_all add: assms FRAME_LEN_def)
  finally show ?thesis by simp
qed

lemma parse_targets_Inr:
  assumes "parse_targets frame = Inr ts"
  shows "length frame = FRAME_LEN"
    and "ts = slot_targets frame 0 @ slot_targets frame 1 @ slot_targets frame 2"
proof -
  show l: "length frame = FRAME_LEN"
    using assms by (auto simp: parse_targets_def split: if_splits)
  show "ts = slot_targets frame 0 @ slot_targets frame 1 @ slot_targets frame 2"
    using parse_targets_slots [OF l] assms by simp
qed

lemma parsed_target_cases:
  assumes "parse_targets frame = Inr ts" "t \<in> set ts"
  obtains idx where "idx < TARGETS_PER_FRAME" "slot_segment frame idx \<noteq> replicate 8 0"
    "t = make_target idx (slot_segment frame idx)"
proof -
  from parse_targets_Inr(2) [OF assms(1)] assms(2)
  have "t \<in> set (slot_targets frame 0) \<or> t \<in> set (slot_targets frame 1)
      \<or> t \<in> set (slot_targets frame 2)" by auto
  moreover have "(0::nat) < 3" "(1::nat) < 3" "(2::nat) < 3" by simp_all
  ultimately obtain idx where "idx < 3" "t \<in> set (slot_targets frame idx)" by blast
  then have "idx < TARGETS_PER_FRAME" "slot_segment frame idx \<noteq> replicate 8 0"
    "t = make_target idx (slot_segment frame idx)"
    by (auto simp: slot_targets_def TARGETS_PER_FRAME_def split: if_splits)
  then show thesis by (rule that)
qed

lemma slot_target_parsed:
  assumes "length frame = FRAME_LEN" "idx < TARGETS_PER_FRAME"
    "slot_segment frame idx \<noteq> replicate 8 0"
  shows "\<exists>ts. parse_targets frame = Inr ts \<and> make_target idx (slot_segment frame idx) \<in> set ts"
proof -
  from assms(2) have "idx = 0 \<or> idx = 1 \<or> idx = 2" by (auto simp: TARGETS_PER_FRAME_def)
  then have "make_target idx (slot_segment frame idx) \<in>
      set (slot_targets frame 0 @ slot_targets frame 1 @ slot_targets frame 2)"
    using assms(3) by (auto simp: slot_targets_def)
  with parse_targets_slots [OF assms(1)] show ?thesis by simp
qed

lemma sample_slots:
  "slot_segment sample_frame 0 = [0xB8, 0x8B, 0xA0, 0x8F, 0x32, 0x80, 0x68, 0x01]"
  "slot_segment sample_frame 1 = replicate 8 0"
  "slot_segment sample_frame 2 = replicate 8 0"
  by (simp_all add: slot_segment_def sample_frame_def numeral_eq_Suc)

lemma sqrt_25000000: "sqrt 25000000 = 5000"
  by (rule real_sqrt_unique) simp_all

lemma parse_sample_frame:
  "parse_targets sample_frame =
     Inr [\<lparr>target_id = 1, x_mm = 3000, y_mm = 4000, r_mm = 5000, speed_cm_s = 50,
           dist_gate_mm = 360\<rparr>]"
proof -
  have l: "length sample_frame = FRAME_LEN" using valid_sample_frame by (simp add: valid_frame_def)
  have "make_target 0 [0xB8, 0x8B, 0xA0, 0x8F, 0x32, 0x80, 0x68, 0x01] =
      \<lparr>target_id = 1, x_mm = 3000, y_mm = 4000, r_mm = 5000, speed_cm_s = 50, dist_gate_mm = 360\<rparr>"
    by (simp add: make_target_def Let_def u16_le_def decode_signed_mag_def sqrt_25000000)
  then have s0: "slot_targets sample_frame 0 =
      [\<lparr>target_id = 1, x_mm = 3000, y_mm = 4000, r_mm = 5000, speed_cm_s = 50,
         dist_gate_mm = 360\<rparr>]"
    unfolding slot_targets_def sample_slots(1) by (simp add: numeral_eq_Suc)
  have s1: "slot_targets sample_frame 1 = []" "slot_targets sample_frame 2 = []"
    unfolding slot_targets_def sample_slots by simp_all
  show ?thesis
    using parse_targets_slots [OF l] unfolding s0 s1 by simp
qed

lemma floor_sqrt_8: "\<lfloor>sqrt 8\<rfloor> = (2::int)"
proof (rule floor_unique)
  show "of_int 2 \<le> sqrt 8" by (intro real_le_rsqrt) simp
  have "sqrt 8 < (3::real)" by (intro real_less_lsqrt) simp_all
  then show "sqrt 8 < of_int 2 + 1" by simp
qed

lemma round_sqrt_8: "round (sqrt 8) = (3::int)"
proof (rule round_unique)
  have "sqrt 8 < (3::real)" by (intro real_less_lsqrt) simp_all
  then show "sqrt 8 - 1 / 2 < of_int 3" by simp
  have "5 / 2 \<le> sqrt 8" by (intro real_le_rsqrt) (simp add: power2_eq_square)
  then show "of_int 3 \<le> sqrt 8 + 1 / 2" by simp
qed

lemma parse_near_frame:
  "parse_targets near_frame =
     Inr [\<lparr>target_id = 1, x_mm = 2, y_mm = 2, r_mm = 2, speed_cm_s = 0, dist_gate_mm = 0\<rparr>]"
proof -
  have l: "length near_frame = FRAME_LEN" by (simp add: near_frame_def FRAME_LEN_def)
  have seg: "slot_segment near_frame 0 = [0x02, 0x80, 0x02, 0x80, 0, 0, 0, 0]"
    "slot_segment near_frame 1 = replicate 8 0"
    "slot_segment near_frame 2 = replicate 8 0"
    by (simp_all add: slot_segment_def near_frame_def numeral_eq_Suc)
  have "make_target 0 [0x02, 0x80, 0x02, 0x80, 0, 0, 0, 0] =
      \<lparr>target_id = 1, x_mm = 2, y_mm = 2, r_mm = 2, speed_cm_s = 0, dist_gate_mm = 0\<rparr>"
    by (simp add: make_target_def Let_def u16_le_def decode_signed_mag_def floor_sqrt_8)
  then have s0: "slot_targets near_frame 0 =
      [\<lparr>target_id = 1, x_mm = 2, y_mm = 2, r_mm = 2, speed_cm_s = 0, dist_gate_mm = 0\<rparr>]"
    unfolding slot_targets_def seg(1) by (simp add: numeral_eq_Suc)
  have s1: "slot_targets near_frame 1 = []" "slot_targets near_frame 2 = []"
    unfolding slot_targets_def seg by simp_all
  show ?thesis
    using parse_targets_slots [OF l] unfolding s0 s1 by simp
qed

section \<open>Properties of the classifier and the packet encoder\<close>

lemma fl64_zero [simp]: "fl64 0 = 0"
  by (simp add: fl64_def fl_round_def)

lemma fl64_error:
  assumes "x = 0 \<or> 2 powi (- 1022) \<le> \<bar>x\<bar>"
  shows "\<bar>fl64 x - x\<bar> \<le> \<bar>x\<bar> / 2 ^ 53"
  using assms fl64_rel_error [of x] by auto

lemma int_truediv_exact:
  "\<bar>n\<bar> < 2 ^ 53 \<Longrightarrow> int_truediv n d = Inr (fl64 (of_int n / d))"
  by (simp add: int_truediv_def float_of_int_exact)

lemma int_quotient_normal:
  fixes n :: int and d :: real
  assumes "0 < d" "d \<le> 1024"
  shows "of_int n / d = 0 \<or> 2 powi (- 1022) \<le> \<bar>of_int n / d\<bar>"
proof (cases "n = 0")
  case True
  then show ?thesis by simp
next
  case False
  then have "1 \<le> \<bar>n\<bar>" by simp
  then have "(of_int 1 :: real) \<le> of_int \<bar>n\<bar>" by (simp only: of_int_le_iff)
  then have n1: "1 \<le> \<bar>of_int n :: real\<bar>" by simp
  have "(2::real) powi (- 1022) \<le> 2 powi (- 10)" by (intro power_int_increasing) simp_all
  also have "\<dots> = 1 / 1024" by (simp add: power_int_minus_divide)
  also have "\<dots> \<le> 1 / d" using assms by (simp add: field_simps)
  also have "\<dots> \<le> \<bar>of_int n\<bar> / d" using n1 assms(1) by (simp add: field_simps)
  finally show ?thesis using assms(1) by simp
qed

lemma fl64_quotient_error:
  fixes n :: int and d :: real
  assumes "0 < d" "d \<le> 1024"
  shows "\<bar>fl64 (of_int n / d) - of_int n / d\<bar> \<le> \<bar>of_int n / d\<bar> / 2 ^ 53"
  by (rule fl64_error) (rule int_quotient_normal [OF assms])

lemma fl64_consts:
  "fl64 (1 / 2) = 1 / 2" "fl64 8 = 8" "fl64 4 = 4"
  "fl64 (5 / 100) = 3602879701896397 / 72057594037927936"
proof -
  show "fl64 8 = 8" "fl64 4 = 4"
    using fl64_of_int [of 8] fl64_of_int [of 4] by simp_all
  show "fl64 (1 / 2) = 1 / 2" by code_simp
  show "fl64 (5 / 100) = 3602879701896397 / 72057594037927936" by code_simp
qed

lemma range_lt_half: "fl64 (of_int n / 1000) < 1 / 2 \<longleftrightarrow> n < 500"
proof -
  define q :: real where "q = of_int n / 1000"
  have err: "\<bar>fl64 q - q\<bar> \<le> \<bar>q\<bar> / 2 ^ 53"
    unfolding q_def by (rule fl64_quotient_error) simp_all
  consider "n \<le> 499" | "n = 500" | "501 \<le> n" by linarith
  then show ?thesis
  proof cases
    case 1
    then have "(of_int n :: real) \<le> of_int 499" by (simp only: of_int_le_iff)
    then have "q \<le> 499 / 1000" by (simp add: q_def)
    with err have "fl64 q < 1 / 2" by (simp add: abs_if split: if_splits)
    with 1 show ?thesis by (simp add: q_def)
  next
    case 2
    then show ?thesis using fl64_consts(1) by simp
  next
    case 3
    then have "(of_int 501 :: real) \<le> of_int n" by (simp only: of_int_le_iff)
    then have "501 / 1000 \<le> q" by (simp add: q_def)
    with err have "1 / 2 < fl64 q" by (simp add: abs_if split: if_splits)
    with 3 show ?thesis by (simp add: q_def)
  qed
qed

lemma range_gt_8: "8 < fl64 (of_int n / 1000) \<longleftrightarrow> 8000 < n"
proof -
  define q :: real where "q = of_int n / 1000"
  have err: "\<bar>fl64 q - q\<bar> \<le> \<bar>q\<bar> / 2 ^ 53"
    unfolding q_def by (rule fl64_quotient_error) simp_all
  consider "n \<le> 7999" | "n = 8000" | "8001 \<le> n" by linarith
  then show ?thesis
  proof cases
    case 1
    then have "(of_int n :: real) \<le> of_int 7999" by (simp only: of_int_le_iff)
    then have "q \<le> 7999 / 1000" by (simp add: q_def)
    with err have "fl64 q < 8" by (simp add: abs_if split: if_splits)
    with 1 show ?thesis by (simp add: q_def)
  next
    case 2
    then show ?thesis using fl64_consts(2) by simp
  next
    case 3
    then have "(of_int 8001 :: real) \<le> of_int n" by (simp only: of_int_le_iff)
    then have "8001 / 1000 \<le> q" by (simp add: q_def)
    with err have "8 < fl64 q" by (simp add: abs_if split: if_splits)
    with 3 show ?thesis by (simp add: q_def)
  qed
qed

lemma speed_gt_4: "4 < fl64 (of_int n / 100) \<longleftrightarrow> 400 < n"
proof -
  define q :: real where "q = of_int n / 100"
  have err: "\<bar>fl64 q - q\<bar> \<le> \<bar>q\<bar> / 2 ^ 53"
    unfolding q_def by (rule fl64_quotient_error) simp_all
  consider "n \<le> 399" | "n = 400" | "401 \<le> n" by linarith
  then show ?thesis
  proof cases
    case 1
    then have "(of_int n :: real) \<le> of_int 399" by (simp only: of_int_le_iff)
    then have "q \<le> 399 / 100" by (simp add: q_def)
    with err have "fl64 q < 4" by (simp add: abs_if split: if_splits)
    with 1 show ?thesis by (simp add: q_def)
  next
    case 2
    then show ?thesis using fl64_consts(3) by simp
  next
    case 3
    then have "(of_int 401 :: real) \<le> of_int n" by (simp only: of_int_le_iff)
    then have "401 / 100 \<le> q" by (simp add: q_def)
    with err have "4 < fl64 q" by (simp add: abs_if split: if_splits)
    with 3 show ?thesis by (simp add: q_def)
  qed
qed

lemma speed_lt_005: "fl64 (of_int n / 100) < fl64 (5 / 100) \<longleftrightarrow> n < 5"
proof -
  define q :: real where "q = of_int n / 100"
  have err: "\<bar>fl64 q - q\<bar> \<le> \<bar>q\<bar> / 2 ^ 53"
    unfolding q_def by (rule fl64_quotient_error) simp_all
  consider "n \<le> 4" | "n = 5" | "6 \<le> n" by linarith
  then show ?thesis
  proof cases
    case 1
    then have "(of_int n :: real) \<le> of_int 4" by (simp only: of_int_le_iff)
    then have "q \<le> 4 / 100" by (simp add: q_def)
    with err have "fl64 q < 3602879701896397 / 72057594037927936"
      by (simp add: abs_if split: if_splits)
    with 1 show ?thesis unfolding q_def [symmetric] fl64_consts(4) by simp
  next
    case 2
    then show ?thesis by simp
  next
    case 3
    then have "(of_int 6 :: real) \<le> of_int n" by (simp only: of_int_le_iff)
    then have "6 / 100 \<le> q" by (simp add: q_def)
    with err have "3602879701896397 / 72057594037927936 < fl64 q"
      by (simp add: abs_if split: if_splits)
    with 3 show ?thesis unfolding q_def [symmetric] fl64_consts(4) by simp
  qed
qed

lemma classify_target_thresholds:
  assumes "\<bar>speed_cm_s t\<bar> < 2 ^ 53" "\<bar>r_mm t\<bar> < 2 ^ 53"
  shows "classify_target t =
     Inr (if r_mm t < 500 \<or> 8000 < r_mm t then (OBJECT_TYPE_GHOST, fl64 (2 / 10))
          else if 400 < \<bar>speed_cm_s t\<bar> then (OBJECT_TYPE_GHOST, fl64 (3 / 10))
          else if \<bar>speed_cm_s t\<bar> < 5 then (OBJECT_TYPE_OBJECT, fl64 (8 / 10))
          else (OBJECT_TYPE_PERSON, fl64 (85 / 100)))"
proof -
  have s: "int_truediv \<bar>speed_cm_s t\<bar> 100 = Inr (fl64 (of_int \<bar>speed_cm_s t\<bar> / 100))"
    using assms(1) by (intro int_truediv_exact) simp
  have r: "int_truediv (r_mm t) 1000 = Inr (fl64 (of_int (r_mm t) / 1000))"
    using assms(2) by (rule int_truediv_exact)
  show ?thesis
    unfolding classify_target_def s r
    by (simp only: sum.case range_lt_half range_gt_8 speed_gt_4 speed_lt_005)
qed

lemma real_int_thresholds:
  fixes k :: int
  shows "(real_of_int k / 1000 < 0.5) = (k < 500)"
    and "(real_of_int k / 1000 > 8.0) = (8000 < k)"
    and "(real_of_int k / 100 > 4.0) = (400 < k)"
    and "(real_of_int k / 100 < 0.05) = (k < 5)"
  by (auto simp: field_simps)

lemma length_f32le [simp]: "length (f32le v) = 4"
  by (simp add: f32le_def le_bytes32_def)

lemma fl32_zero [simp]: "fl32 0 = 0"
  by (simp add: fl32_def fl_round_def)

lemma fl32_no_overflow:
  assumes "\<bar>v\<bar> \<le> 2 ^ 100"
  shows "\<bar>fl32 v\<bar> < 2 ^ 128"
proof -
  consider "v = 0" | "2 powi (- 126) \<le> \<bar>v\<bar>" | "v \<noteq> 0" "\<bar>v\<bar> < 2 powi (- 126)"
    by fastforce
  then show ?thesis
  proof cases
    case 1
    then show ?thesis by simp
  next
    case 2
    have "\<bar>fl32 v - v\<bar> \<le> \<bar>v\<bar> * 2 powi (- int 24)"
      unfolding fl32_def using 2 by (rule fl_round_rel_error)
    also have "\<dots> \<le> \<bar>v\<bar> * 1"
      by (intro mult_left_mono) (simp_all add: power_int_minus_divide)
    finally have "\<bar>fl32 v - v\<bar> \<le> \<bar>v\<bar>" by simp
    then have "\<bar>fl32 v\<bar> \<le> 2 * 2 ^ 100" using assms by linarith
    also have "\<dots> < (2::real) ^ 128" by simp
    finally show ?thesis .
  next
    case 3
    then have pos: "0 < \<bar>v\<bar>" by simp
    have "2 powi (floor_log2 \<bar>v\<bar>) < (2::real) powi (- 126)"
      using floor_log2_bounds(1) [OF pos] 3(2) by linarith
    then have "floor_log2 \<bar>v\<bar> < - 126" by (rule powi2_less_exp)
    then have m: "max (floor_log2 \<bar>v\<bar>) (- 126) = - 126" by simp
    have "\<bar>fl32 v - v\<bar> \<le> 2 powi (max (floor_log2 \<bar>v\<bar>) (- 126) - int 24)"
      unfolding fl32_def using 3(1) by (rule fl_round_abs_error)
    also have "\<dots> = 2 powi (- 150)" unfolding m by simp
    also have "\<dots> \<le> 1" by (simp add: power_int_minus_divide)
    finally have "\<bar>fl32 v - v\<bar> \<le> 1" .
    moreover have "(2::real) powi (- 126) \<le> 1" by (simp add: power_int_minus_divide)
    ultimately have "\<bar>fl32 v\<bar> \<le> 2" using 3(2) by linarith
    also have "\<dots> < (2::real) ^ 128" by simp
    finally show ?thesis .
  qed
qed

lemma pack_f_ok: "\<bar>v\<bar> \<le> 2 ^ 100 \<Longrightarrow> pack_f v = Inr (f32le v)"
  using fl32_no_overflow [of v] by (simp add: pack_f_def f32le_def Let_def)

lemma fl64_quotient_bound:
  fixes n :: int
  assumes "\<bar>n\<bar> < 2 ^ 53"
  shows "\<bar>fl64 (of_int n / 1000)\<bar> \<le> 2 ^ 100"
proof -
  have "(of_int \<bar>n\<bar> :: real) < of_int (2 ^ 53)" using assms by (simp only: of_int_less_iff)
  then have n: "\<bar>of_int n :: real\<bar> < 2 ^ 53" by simp
  have "\<bar>fl64 (of_int n / 1000) - of_int n / 1000\<bar> \<le> \<bar>of_int n / 1000\<bar> / 2 ^ 53"
    by (rule fl64_quotient_error) simp_all
  with n have "\<bar>fl64 (of_int n / 1000)\<bar> \<le> 2 * 2 ^ 53"
    by (simp add: abs_if split: if_splits)
  also have "\<dots> \<le> (2::real) ^ 100" by simp
  finally show ?thesis .
qed

lemma clamp_bounds: "lo \<le> hi \<Longrightarrow> lo \<le> clamp v lo hi \<and> clamp v lo hi \<le> hi"
  by (auto simp: clamp_def)

lemma clamp_if:
  "lo \<le> hi \<Longrightarrow> (if v < lo then lo else if hi < v then hi else v) = clamp v lo hi"
  by (auto simp: clamp_def max_def min_def)

lemma classify_target_type:
  assumes "\<bar>speed_cm_s t\<bar> < 2 ^ 53" "\<bar>r_mm t\<bar> < 2 ^ 53"
  obtains ty conf where "classify_target t = Inr (ty, conf)" "1 \<le> ty" "ty \<le> 3"
  using classify_target_thresholds [OF assms]
  by (cases "r_mm t < 500 \<or> 8000 < r_mm t"; cases "400 < \<bar>speed_cm_s t\<bar>";
      cases "\<bar>speed_cm_s t\<bar> < 5")
     (auto simp: OBJECT_TYPE_GHOST_def OBJECT_TYPE_OBJECT_def OBJECT_TYPE_PERSON_def)

lemma mask_small: "1 \<le> ty \<Longrightarrow> ty \<le> 3 \<Longrightarrow> ty AND 0xFF = (ty :: int)"
proof -
  assume "1 \<le> ty" "ty \<le> 3"
  then have "ty = 1 \<or> ty = 2 \<or> ty = 3" by linarith
  then show ?thesis by auto
qed

lemma pack_radar_data_fields:
  assumes "\<bar>x_mm t\<bar> < 2 ^ 53" "\<bar>y_mm t\<bar> < 2 ^ 53" "\<bar>r_mm t\<bar> < 2 ^ 53"
    "\<bar>speed_cm_s t\<bar> < 2 ^ 53" "classify_target t = Inr (ty, conf)"
  shows "pack_radar_data t =
     (let visual_x = clamp (fl64 (fl64 (of_int (x_mm t) / 1000) * 3)) (- 10) 10;
          visual_y = clamp (fl64 (fl64 (of_int (y_mm t) / 1000) * 3)) (- 10) 10;
          depth = fl64 (of_int (r_mm t) / 1000);
          signal_quality_db = clamp (fl64 (40 - fl64 (depth * 5))) 5 35;
          confidence = clamp (fl64 (fl64 (signal_quality_db - 5) / 30)) 0 1
      in Inr (f32le visual_x @ f32le visual_y @ f32le depth @ f32le signal_quality_db @
              f32le confidence @ [word_of_int (ty AND 0xFF)]))"
proof -
  obtain ty' conf' where c: "classify_target t = Inr (ty', conf')" and ty: "1 \<le> ty'" "ty' \<le> 3"
    by (rule classify_target_type [OF assms(4) assms(3)])
  with assms(5) have ty_eq: "ty' = ty" by simp
  define visual_x where "visual_x = clamp (fl64 (fl64 (of_int (x_mm t) / 1000) * 3)) (- 10) 10"
  define visual_y where "visual_y = clamp (fl64 (fl64 (of_int (y_mm t) / 1000) * 3)) (- 10) 10"
  define depth where "depth = fl64 (of_int (r_mm t) / 1000)"
  define snr where "snr = clamp (fl64 (40 - fl64 (depth * 5))) 5 35"
  define cf where "cf = clamp (fl64 (fl64 (snr - 5) / 30)) 0 1"
  have b: "\<bar>visual_x\<bar> \<le> 2 ^ 100" "\<bar>visual_y\<bar> \<le> 2 ^ 100" "\<bar>snr\<bar> \<le> 2 ^ 100"
    "\<bar>cf\<bar> \<le> 2 ^ 100"
    using clamp_bounds [of "- 10" 10] clamp_bounds [of 5 35] clamp_bounds [of 0 1]
    unfolding visual_x_def visual_y_def snr_def cf_def
    by (simp_all add: abs_le_iff) (smt (verit))+
  have bd: "\<bar>depth\<bar> \<le> 2 ^ 100"
    unfolding depth_def using assms(3) by (rule fl64_quotient_bound)
  have p: "pack_f visual_x = Inr (f32le visual_x)" "pack_f visual_y = Inr (f32le visual_y)"
    "pack_f depth = Inr (f32le depth)" "pack_f snr = Inr (f32le snr)"
    "pack_f cf = Inr (f32le cf)"
    using b bd by (simp_all add: pack_f_ok)
  have pb: "pack_B (ty AND 0xFF) = Inr [word_of_int (ty AND 0xFF)]"
    using ty mask_small [of ty] by (simp add: pack_B_def ty_eq)
  have sp: "struct_pack_fffffB visual_x visual_y depth snr cf (ty AND 0xFF) =
      Inr (f32le visual_x @ f32le visual_y @ f32le depth @ f32le snr @ f32le cf @
           [word_of_int (ty AND 0xFF)])"
    by (simp add: struct_pack_fffffB_def p pb)
  have "pack_radar_data t = struct_pack_fffffB visual_x visual_y depth snr cf (ty AND 0xFF)"
    unfolding pack_radar_data_def int_truediv_exact [OF assms(1)] int_truediv_exact [OF assms(2)]
      int_truediv_exact [OF assms(3)] assms(5) POSITION_SCALE_def MAX_POSITION_METERS_def
    by (simp add: Let_def clamp_if visual_x_def visual_y_def depth_def snr_def cf_def
        clamp_def [of _ "- 10" 10])
  with sp show ?thesis
    by (simp add: Let_def visual_x_def visual_y_def depth_def snr_def cf_def)
qed

lemma f32le_values:
  "f32le 10 = [0, 0, 32, 65]" "f32le 0 = [0, 0, 0, 0]" "f32le 2 = [0, 0, 0, 64]"
  "f32le 30 = [0, 0, 240, 65]"
  "f32le (7505999378950827 / 9007199254740992) = [85, 85, 85, 63]"
  "fl64 (5 / 6) = 7505999378950827 / 9007199254740992"
  by code_simp+

section \<open>The relay\<close>

subsection \<open>What the reader enqueues\<close>



lemma reader_step_batches:
  assumes "reader_step buffer q r = Continue buffer' q'"
    and "\<forall>b \<in> set q. b \<noteq> [] \<and> (\<exists>frame. parse_targets frame = Inr b)"
  shows "\<forall>b \<in> set q'. b \<noteq> [] \<and> (\<exists>frame. parse_targets frame = Inr b)"
  using assms
  by (auto simp: reader_step_def queue_put_def
      split: prod.splits option.splits if_splits sum.splits blocking.splits)


subsection \<open>The drain loop and the closest target\<close>

lemma drain_queue_last:
  "drain_queue q acc = (if q = [] then acc else Some (last q), [])"
  by (induction q arbitrary: acc) simp_all

text \<open>The head of a stable sort: the first element of the list with the least key.\<close>

lemma hd_sort_key_min:
  fixes f :: "'a \<Rightarrow> int"
  assumes "sort_key f xs = t # rest"
  shows "t \<in> set xs" and "\<forall>u \<in> set xs. f t \<le> f u"
proof -
  have s: "set (sort_key f xs) = set xs" by simp
  moreover have "t \<in> set (sort_key f xs)" unfolding assms by simp
  ultimately show "t \<in> set xs" by simp
  have "sorted (map f (sort_key f xs))" by simp
  with assms have "\<forall>u \<in> set rest. f t \<le> f u" by simp
  then have "\<forall>u \<in> set (sort_key f xs). f t \<le> f u" unfolding assms by simp
  then show "\<forall>u \<in> set xs. f t \<le> f u" by simp
qed

lemma hd_sort_key_first:
  fixes f :: "'a \<Rightarrow> int"
  assumes "sort_key f xs = t # rest"
  shows "\<exists>ys zs. xs = ys @ t # zs \<and> (\<forall>u \<in> set ys. f u \<noteq> f t)"
proof -
  have "filter (\<lambda>y. f y = f t) (sort_key f xs) = filter (\<lambda>y. f y = f t) xs"
    by (rule sort_key_stable)
  with assms have "filter (\<lambda>y. f y = f t) xs = t # filter (\<lambda>y. f y = f t) rest" by simp
  then obtain ys zs where "xs = ys @ t # zs" "\<forall>u \<in> set ys. \<not> f u = f t"
    unfolding filter_eq_Cons_iff by blast
  then show ?thesis by blast
qed

lemma closest_of_ascending:
  assumes "sort_key r_mm b = t # rest" "sorted_wrt (\<lambda>a c. target_id a < target_id c) b"
  shows "t \<in> set b"
    and "\<forall>u \<in> set b. r_mm t \<le> r_mm u \<and> (r_mm u = r_mm t \<longrightarrow> target_id t \<le> target_id u)"
proof -
  show "t \<in> set b" using hd_sort_key_min(1) [OF assms(1)] .
  obtain ys zs where b: "b = ys @ t # zs" and ys: "\<forall>u \<in> set ys. r_mm u \<noteq> r_mm t"
    using hd_sort_key_first [OF assms(1)] by blast
  have "\<forall>u \<in> set zs. target_id t < target_id u"
    using assms(2) unfolding b by (simp add: sorted_wrt_append)
  with b ys hd_sort_key_min(2) [OF assms(1)]
  show "\<forall>u \<in> set b. r_mm t \<le> r_mm u \<and> (r_mm u = r_mm t \<longrightarrow> target_id t \<le> target_id u)"
    by auto
qed

lemma decoded_batch_ascending:
  assumes "parse_targets frame = Inr b"
  shows "sorted_wrt (\<lambda>a c. target_id a < target_id c) b"
  unfolding parse_targets_Inr(2) [OF assms]
  by (simp add: slot_targets_def make_target_def Let_def sorted_wrt_append)

subsection \<open>Decoded targets are packed without error\<close>

lemma floor_sqrt_bound:
  fixes m :: int
  assumes "0 \<le> m" "m \<le> 2 ^ 50"
  shows "0 \<le> \<lfloor>sqrt (of_int m)\<rfloor>" "\<lfloor>sqrt (of_int m)\<rfloor> \<le> 2 ^ 25"
proof -
  show "0 \<le> \<lfloor>sqrt (of_int m)\<rfloor>" using assms(1) by simp
  have "(of_int m :: real) \<le> of_int (2 ^ 50)" using assms(2) by (simp only: of_int_le_iff)
  then have "sqrt (of_int m) \<le> (2::real) ^ 25" by (intro real_le_lsqrt) simp_all
  then show "\<lfloor>sqrt (of_int m)\<rfloor> \<le> 2 ^ 25" by (simp add: floor_le_iff)
qed

lemma decoded_target_bounds:
  assumes "parse_targets frame = Inr b" "t \<in> set b"
  shows "\<bar>x_mm t\<bar> < 2 ^ 53" "\<bar>y_mm t\<bar> < 2 ^ 53" "\<bar>r_mm t\<bar> < 2 ^ 53" "\<bar>speed_cm_s t\<bar> < 2 ^ 53"
proof -
  from assms obtain idx where t: "t = make_target idx (slot_segment frame idx)"
    by (rule parsed_target_cases)
  define seg where "seg = slot_segment frame idx"
  define x where "x = decode_signed_mag (u16_le (seg ! 0) (seg ! 1))"
  define y where "y = decode_signed_mag (u16_le (seg ! 2) (seg ! 3))"
  have f: "x_mm t = x" "y_mm t = y" "r_mm t = \<lfloor>sqrt (of_int (x * x + y * y))\<rfloor>"
    "speed_cm_s t = decode_signed_mag (u16_le (seg ! 4) (seg ! 5))"
    by (simp_all add: t make_target_def Let_def seg_def x_def y_def)
  have bx: "\<bar>x\<bar> \<le> 32767" and by': "\<bar>y\<bar> \<le> 32767"
    unfolding x_def y_def by (rule decode_signed_mag_bound)+
  show "\<bar>x_mm t\<bar> < 2 ^ 53" "\<bar>y_mm t\<bar> < 2 ^ 53" using bx by' f by simp_all
  show "\<bar>speed_cm_s t\<bar> < 2 ^ 53"
    using decode_signed_mag_bound [of "u16_le (seg ! 4) (seg ! 5)"] f by simp
  have xx: "x * x \<le> 32767 * 32767" "y * y \<le> 32767 * 32767"
    using bx by' mult_mono [of "\<bar>x\<bar>" 32767 "\<bar>x\<bar>" 32767] mult_mono [of "\<bar>y\<bar>" 32767 "\<bar>y\<bar>" 32767]
    by (simp_all add: abs_mult_self_eq)
  then have "0 \<le> x * x + y * y" "x * x + y * y \<le> 2 ^ 50" by simp_all
  from floor_sqrt_bound [OF this] f(3) show "\<bar>r_mm t\<bar> < 2 ^ 53" by simp
qed

lemma decoded_target_packs:
  assumes "parse_targets frame = Inr b" "t \<in> set b"
  shows "\<exists>packet. pack_radar_data t = Inr packet \<and> length packet = 21"
proof -
  note bd = decoded_target_bounds [OF assms]
  obtain ty conf where "classify_target t = Inr (ty, conf)"
    by (rule classify_target_type [OF bd(4) bd(3)])
  from pack_radar_data_fields [OF bd this] show ?thesis by (simp add: Let_def)
qed

subsection \<open>The publish tick\<close>

lemma tick_idle:
  "\<not> notifying s \<or> \<not> radar_queue_set s \<Longrightarrow> update_radar_data s = (Inr True, s)"
  by (auto simp: update_radar_data_def)

lemma tick_empty:
  "data_queue s = [] \<Longrightarrow> update_radar_data s = (Inr True, s)"
  by (simp add: update_radar_data_def)

lemma tick_publishes:
  assumes "notifying s" "radar_queue_set s" "data_queue s \<noteq> []" "last (data_queue s) = b"
    "b \<noteq> []" "parse_targets frame = Inr b"
  shows "\<exists>t packet. t \<in> set b
      \<and> (\<forall>u \<in> set b. r_mm t \<le> r_mm u \<and> (r_mm u = r_mm t \<longrightarrow> target_id t \<le> target_id u))
      \<and> pack_radar_data t = Inr packet \<and> length packet = 21
      \<and> update_radar_data s =
          (Inr True, s\<lparr>data_queue := [], chr_value := packet,
                       notifications := notifications s @ [packet]\<rparr>)"
proof -
  have "sort_key r_mm b \<noteq> []" using assms(5) by (metis length_0_conv length_sort)
  then obtain t rest where srt: "sort_key r_mm b = t # rest" by (cases "sort_key r_mm b") auto
  note cl = closest_of_ascending [OF srt decoded_batch_ascending [OF assms(6)]]
  obtain packet where p: "pack_radar_data t = Inr packet" "length packet = 21"
    using decoded_target_packs [OF assms(6) cl(1)] by blast
  have "update_radar_data s =
      (Inr True, s\<lparr>data_queue := [], chr_value := packet,
                   notifications := notifications s @ [packet]\<rparr>)"
    using assms(1-5) srt p(1)
    by (simp add: update_radar_data_def drain_queue_last update_value_def Let_def)
  with cl p show ?thesis by blast
qed




subsection \<open>The sample data\<close>

lemma sqrt_4000000: "sqrt 4000000 = 2000"
  by (rule real_sqrt_unique) simp_all

lemma parse_sample_frame_far: "parse_targets sample_frame = Inr [far_target]"
  using parse_sample_frame by (simp add: far_target_def)

lemma parse_two_target_frame: "parse_targets two_target_frame = Inr [far_target, near_target]"
proof -
  have l: "length two_target_frame = FRAME_LEN" by (simp add: two_target_frame_def FRAME_LEN_def)
  have seg: "slot_segment two_target_frame 0 = [0xB8, 0x8B, 0xA0, 0x8F, 0x32, 0x80, 0x68, 0x01]"
    "slot_segment two_target_frame 1 = [0x00, 0x00, 0xD0, 0x87, 0x00, 0x00, 0x00, 0x00]"
    "slot_segment two_target_frame 2 = replicate 8 0"
    by (simp_all add: slot_segment_def two_target_frame_def numeral_eq_Suc)
  have "make_target 0 [0xB8, 0x8B, 0xA0, 0x8F, 0x32, 0x80, 0x68, 0x01] = far_target"
    by (simp add: make_target_def Let_def u16_le_def decode_signed_mag_def sqrt_25000000
        far_target_def)
  then have s0: "slot_targets two_target_frame 0 = [far_target]"
    unfolding slot_targets_def seg(1) by (simp add: numeral_eq_Suc)
  have r8: "replicate 8 (0::byte) = [0, 0, 0, 0, 0, 0, 0, 0]" by (simp add: numeral_eq_Suc)
  have ne: "[0x00, 0x00, 0xD0, 0x87, 0x00, 0x00, 0x00, 0x00] \<noteq> replicate 8 (0::byte)"
    unfolding r8 by simp
  have "make_target 1 [0x00, 0x00, 0xD0, 0x87, 0x00, 0x00, 0x00, 0x00] = near_target"
    by (simp add: make_target_def Let_def u16_le_def decode_signed_mag_def sqrt_4000000
        near_target_def)
  then have s1: "slot_targets two_target_frame 1 = [near_target]"
    unfolding slot_targets_def seg(2) using ne by simp
  have s2: "slot_targets two_target_frame 2 = []"
    unfolding slot_targets_def seg(3) by simp
  show ?thesis
    using parse_targets_slots [OF l] unfolding s0 s1 s2 by simp
qed

lemma f32le_6: "f32le 6 = [0, 0, 192, 64]"
  by code_simp

lemma pack_near_target: "pack_radar_data near_target = Inr near_packet"
proof -
  have i: "fl64 2 = 2" "fl64 6 = 6" "fl64 10 = 10" "fl64 30 = 30" "fl64 25 = 25"
    using fl64_of_int [of 2] fl64_of_int [of 6] fl64_of_int [of 10] fl64_of_int [of 30]
      fl64_of_int [of 25] by simp_all
  have c: "classify_target near_target = Inr (OBJECT_TYPE_OBJECT, fl64 (8 / 10))"
    using classify_target_thresholds [of near_target] by (simp add: near_target_def)
  have m: "OBJECT_TYPE_OBJECT AND 0xFF = 2" by (simp add: OBJECT_TYPE_OBJECT_def)
  have "pack_radar_data near_target =
      Inr (f32le 0 @ f32le 6 @ f32le 2 @ f32le 30 @
           f32le (7505999378950827 / 9007199254740992) @ [2])"
    using pack_radar_data_fields [OF _ _ _ _ c] m
    by (simp add: near_target_def Let_def clamp_def i f32le_values(6))
  then show ?thesis by (simp add: f32le_values f32le_6 near_packet_def)
qed

lemma closest_of_two:
  assumes "t \<in> set [far_target, near_target]"
    and "\<forall>u \<in> set [far_target, near_target]. r_mm t \<le> r_mm u \<and> (r_mm u = r_mm t \<longrightarrow> target_id t \<le> target_id u)"
  shows "t = near_target"
  using assms by (auto simp: far_target_def near_target_def)

section \<open>Claims about the frame synchronizer\<close>

text \<open>
  C3, as stated: one byte per call and the whole stream in a single call give the same
  frames. A single call returns at most one frame, so a stream of two complete frames
  refutes it: byte by byte both frames are returned, the single call returns the first.
\<close>

theorem chunking_single_call_counterexample:
  "fst (feed_chunks [] (map (\<lambda>b. Chunk [b]) (sample_frame @ sample_frame))) \<noteq>
   fst (feed_chunks [] [Chunk (sample_frame @ sample_frame)])"
proof -
  have "fst (feed_chunks [] (map (\<lambda>b. Chunk [b]) (sample_frame @ sample_frame))) =
      [sample_frame, sample_frame]"
    using bytewise_drain [of "[]" "sample_frame @ sample_frame"]
      drain_valid_window [OF valid_sample_frame, of sample_frame]
      drain_valid_window [OF valid_sample_frame, of "[]"]
    by (simp add: short_quiescent)
  moreover have "sample_frame \<noteq> []" by (simp add: sample_frame_def)
  then have "fst (feed_chunks [] [Chunk (sample_frame @ sample_frame)]) = [sample_frame]"
    using extract_valid_window [OF valid_sample_frame, of sample_frame]
    by (simp add: read_frame_def emitted_def)
  ultimately show ?thesis by simp
qed

text \<open>
  C3, amended: feeding a byte stream one byte per \<^verbatim>\<open>read_frame\<close> call returns the same
  frames, in the same order, as feeding the whole stream in a single call and then calling
  \<^verbatim>\<open>read_frame\<close> with no new bytes until it returns no frame.
\<close>

theorem chunking_invariance_drained:
  "fst (feed_chunks [] (map (\<lambda>b. Chunk [b]) stream)) =
     (case feed_chunks [] [Chunk stream] of (frames, buffer) \<Rightarrow> frames @ drain_frames buffer)"
proof -
  have "fst (feed_chunks [] (map (\<lambda>b. Chunk [b]) stream)) = drain_frames stream"
    using bytewise_drain [of "[]" stream] by (simp add: short_quiescent)
  moreover have "read_frame [] (Chunk stream) = extract_frame_from_buffer stream"
    by (simp add: read_frame_def)
  ultimately show ?thesis
    using drain_append [of stream "[]"]
    by (simp split: prod.splits)
qed

text \<open>
  C8: a stream that is the header, 26 bytes that do not end in the tail marker, and then
  a complete valid frame. The corrupt 30-byte window is removed from the buffer whatever
  follows it, no error is raised (the result is an ordinary value), and exactly one frame
  is returned, the second: by the single call that receives the stream, after which a
  further call returns nothing, and also when the stream arrives one byte per call.
\<close>

theorem corrupt_frame_resync:
  assumes "length garbage = 26" "drop 24 garbage \<noteq> FRAME_TAIL" "valid_frame second"
  shows "extract_frame_from_buffer (FRAME_HEADER @ garbage @ rest) = extract_frame_from_buffer rest
    \<and> read_frame [] (Chunk (FRAME_HEADER @ garbage @ second)) = (Some second, [])
    \<and> feed_chunks [] [Chunk (FRAME_HEADER @ garbage @ second), Chunk []] = ([second], [])
    \<and> fst (feed_chunks [] (map (\<lambda>b. Chunk [b]) (FRAME_HEADER @ garbage @ second))) = [second]"
proof -
  let ?w = "FRAME_HEADER @ garbage"
  have w: "length ?w = FRAME_LEN" "take 4 ?w = FRAME_HEADER" "drop (FRAME_LEN - 2) ?w \<noteq> FRAME_TAIL"
    using assms(1,2) by (simp_all add: FRAME_LEN_def)
  have skip: "extract_frame_from_buffer (?w @ rest) = extract_frame_from_buffer rest" for rest
    using w by (rule extract_corrupt_window)
  have one: "extract_frame_from_buffer (FRAME_HEADER @ garbage @ second) = (Some second, [])"
    using skip [of second] extract_valid_window [OF assms(3), of "[]"] by simp
  have "drain_frames (?w @ second) = [second]"
    by (subst drain_frames_unfold) (simp add: one)
  then have bytewise: "fst (feed_chunks [] (map (\<lambda>b. Chunk [b]) (?w @ second))) = [second]"
    using bytewise_drain [of "[]" "?w @ second"] by (simp add: short_quiescent)
  show ?thesis
    using skip [of rest] one bytewise by (simp add: read_frame_def emitted_def)
qed

theorem corrupt_frame_resync_witness:
  "length (replicate 26 (0::byte)) = 26 \<and> drop 24 (replicate 26 (0::byte)) \<noteq> FRAME_TAIL
   \<and> valid_frame sample_frame
   \<and> read_frame [] (Chunk (FRAME_HEADER @ replicate 26 0 @ sample_frame)) = (Some sample_frame, [])"
proof -
  have a: "length (replicate 26 (0::byte)) = 26" by simp
  have "drop 24 (replicate 26 (0::byte)) = [0, 0]"
    by (simp add: numeral_2_eq_2)
  then have b: "drop 24 (replicate 26 (0::byte)) \<noteq> FRAME_TAIL"
    by (simp add: FRAME_TAIL_def)
  from corrupt_frame_resync [OF a b valid_sample_frame] a b valid_sample_frame
  show ?thesis by simp
qed

text \<open>
  C9, as stated: some constant bounds the rolling buffer after every call, for every
  sequence of calls that each append at most 64 bytes. No constant does: a call returns
  after its first valid frame, so calls that each receive two complete frames (60 bytes)
  leave one more frame in the buffer every time.
\<close>

theorem buffer_unbounded_counterexample:
  "\<not> (\<exists>N. \<forall>rs. (\<forall>r \<in> set rs. chunk_size r \<le> 64) \<longrightarrow>
         length (snd (feed_chunks [] rs)) \<le> N)"
proof
  assume "\<exists>N. \<forall>rs. (\<forall>r \<in> set rs. chunk_size r \<le> 64) \<longrightarrow>
         length (snd (feed_chunks [] rs)) \<le> N"
  then obtain N where N: "\<And>rs. (\<forall>r \<in> set rs. chunk_size r \<le> 64) \<Longrightarrow>
         length (snd (feed_chunks [] rs)) \<le> N" by blast
  let ?rs = "replicate (Suc N) (Chunk (sample_frame @ sample_frame))"
  have "\<forall>r \<in> set ?rs. chunk_size r \<le> 64"
    by (simp add: chunk_size_def sample_frame_def)
  from N [OF this] have "length (snd (feed_chunks [] ?rs)) \<le> N" .
  moreover have "snd (feed_chunks [] ?rs) = concat (replicate (Suc N) sample_frame)"
    using backlog_grows [OF valid_sample_frame, of 0 "Suc N"] by simp
  moreover have "length sample_frame = 30" by (simp add: sample_frame_def)
  then have "length (concat (replicate (Suc N) sample_frame)) = 30 * Suc N"
    by (simp add: length_concat sum_list_replicate)
  ultimately have "30 * Suc N \<le> N" by (simp only:)
  then show False by simp
qed

text \<open>
  C9, amended: a \<^verbatim>\<open>read_frame\<close> call leaves a buffer no longer than the buffer before
  plus the chunk appended; a call that returns a frame has removed at least 30 bytes; when
  no header is found the call returns no frame and retains the last 3 bytes at most; and a
  located full 30-byte window is always consumed, with everything before it.
\<close>

theorem read_frame_buffer_bounds:
  assumes "read_frame buffer (Chunk chunk) = (r, buffer')"
  shows "length buffer' \<le> length buffer + length chunk
    \<and> (r \<noteq> None \<longrightarrow> length buffer' + FRAME_LEN \<le> length buffer + length chunk)
    \<and> (find_bytes (buffer @ chunk) FRAME_HEADER = None \<longrightarrow>
         r = None \<and> length buffer' \<le> 3 \<and>
         buffer' = drop (length (buffer @ chunk) - 3) (buffer @ chunk))
    \<and> (\<forall>idx. find_bytes (buffer @ chunk) FRAME_HEADER = Some idx \<and>
           idx + FRAME_LEN \<le> length (buffer @ chunk) \<longrightarrow>
           length buffer' + (idx + FRAME_LEN) \<le> length buffer + length chunk)"
proof -
  from assms have ex: "extract_frame_from_buffer (buffer @ chunk) = (r, buffer')"
    by (cases "chunk = []") (simp_all add: read_frame_def)
  have a: "length buffer' \<le> length buffer + length chunk"
    using extract_length_le [of "buffer @ chunk"] ex by simp
  have b: "length buffer' + FRAME_LEN \<le> length buffer + length chunk" if "r \<noteq> None"
    using that ex extract_Some_length [of "buffer @ chunk"] by auto
  have c: "r = None \<and> length buffer' \<le> 3 \<and>
         buffer' = drop (length (buffer @ chunk) - 3) (buffer @ chunk)"
    if "find_bytes (buffer @ chunk) FRAME_HEADER = None"
    using extract_no_header [OF that] ex by (auto split: if_splits)
  have d: "length buffer' + (idx + FRAME_LEN) \<le> length buffer + length chunk"
    if "find_bytes (buffer @ chunk) FRAME_HEADER = Some idx"
      "idx + FRAME_LEN \<le> length (buffer @ chunk)" for idx
  proof -
    define whole where "whole = buffer @ chunk"
    define rest where "rest = drop (idx + FRAME_LEN) whole"
    have f: "find_bytes whole FRAME_HEADER = Some idx" and c: "idx + FRAME_LEN \<le> length whole"
      using that by (simp_all add: whole_def)
    have "extract_frame_from_buffer whole = extract_frame_from_buffer rest \<or>
          snd (extract_frame_from_buffer whole) = rest"
      using extract_complete_unfold [OF f c] by (simp add: rest_def)
    moreover have "snd (extract_frame_from_buffer whole) = buffer'"
      using ex by (simp add: whole_def)
    ultimately have "length buffer' \<le> length rest"
      using extract_length_le [of rest] by auto
    moreover have "length rest + (idx + FRAME_LEN) = length whole"
      using c by (simp add: rest_def)
    ultimately show ?thesis by (simp add: whole_def)
  qed
  show ?thesis using a b c d by blast
qed

theorem read_frame_buffer_bounds_witness:
  "read_frame [0x01, 0x02] (Chunk [0x03, 0x04, 0x05]) = (None, [0x03, 0x04, 0x05])
   \<and> find_bytes ([0x01, 0x02] @ [0x03, 0x04, 0x05]) FRAME_HEADER = None
   \<and> length [0x03, 0x04, 0x05 :: byte] \<le> 3"
proof -
  have f: "find_bytes ([0x01, 0x02] @ [0x03, 0x04, 0x05]) FRAME_HEADER = None"
    by (simp add: FRAME_HEADER_def)
  obtain r buffer' where rf: "read_frame [0x01, 0x02] (Chunk [0x03, 0x04, 0x05]) = (r, buffer')"
    by (cases "read_frame [0x01, 0x02] (Chunk [0x03, 0x04, 0x05])")
  from read_frame_buffer_bounds [OF rf] f have "r = None" "buffer' = [0x03, 0x04, 0x05]"
    by simp_all
  with rf f show ?thesis by simp
qed

section \<open>Claims about the target decoder\<close>

text \<open>
  C4: the signed-magnitude decoding of a 16-bit field value \<open>u\<close> (of any integer, in
  fact) is 0 for 0, the low 15 bits when bit 15 is set, and minus the low 15 bits
  otherwise, so \<open>0x8064\<close> decodes to \<open>+100\<close> and \<open>0x0064\<close> to \<open>-100\<close>. Every non-zero slot
  of a 30-byte frame yields a target whose x, y and speed are the signed-magnitude decoding
  of the first three little-endian fields of the slot and whose distance gate is the
  fourth field as a plain unsigned value.
\<close>

theorem signed_magnitude_decoding:
  assumes "length frame = FRAME_LEN" "idx < TARGETS_PER_FRAME"
    "slot_segment frame idx = segment" "segment \<noteq> replicate 8 0"
  shows "decode_signed_mag u =
           (if u = 0 then 0 else if bit u 15 then u AND 0x7FFF else - (u AND 0x7FFF))
    \<and> decode_signed_mag 0 = 0
    \<and> decode_signed_mag 0x8064 = 100
    \<and> decode_signed_mag 0x0064 = - 100
    \<and> (\<exists>ts t. parse_targets frame = Inr ts \<and> t \<in> set ts \<and> target_id t = int idx + 1
          \<and> x_mm t = decode_signed_mag (u16_le (segment ! 0) (segment ! 1))
          \<and> y_mm t = decode_signed_mag (u16_le (segment ! 2) (segment ! 3))
          \<and> speed_cm_s t = decode_signed_mag (u16_le (segment ! 4) (segment ! 5))
          \<and> dist_gate_mm t = u16_le (segment ! 6) (segment ! 7))"
proof -
  have ex: "decode_signed_mag 0 = 0" "decode_signed_mag 0x8064 = 100"
    "decode_signed_mag 0x0064 = - 100"
    by (simp_all add: decode_signed_mag_def)
  obtain ts where ts: "parse_targets frame = Inr ts" "make_target idx segment \<in> set ts"
    using slot_target_parsed [OF assms(1,2)] assms(3,4) by auto
  have "target_id (make_target idx segment) = int idx + 1"
    "x_mm (make_target idx segment) = decode_signed_mag (u16_le (segment ! 0) (segment ! 1))"
    "y_mm (make_target idx segment) = decode_signed_mag (u16_le (segment ! 2) (segment ! 3))"
    "speed_cm_s (make_target idx segment) = decode_signed_mag (u16_le (segment ! 4) (segment ! 5))"
    "dist_gate_mm (make_target idx segment) = u16_le (segment ! 6) (segment ! 7)"
    by (simp_all add: make_target_def Let_def)
  with ts ex decode_signed_mag_bit [of u] show ?thesis by blast
qed

theorem signed_magnitude_decoding_witness:
  "length sample_frame = FRAME_LEN \<and> 0 < TARGETS_PER_FRAME
   \<and> slot_segment sample_frame 0 = [0xB8, 0x8B, 0xA0, 0x8F, 0x32, 0x80, 0x68, 0x01]
   \<and> [0xB8, 0x8B, 0xA0, 0x8F, 0x32, 0x80, 0x68, 0x01] \<noteq> replicate 8 (0 :: byte)
   \<and> decode_signed_mag 0x8BB8 = 3000
   \<and> (\<exists>ts t. parse_targets sample_frame = Inr ts \<and> t \<in> set ts \<and> target_id t = 1
         \<and> x_mm t = 3000 \<and> y_mm t = 4000 \<and> speed_cm_s t = 50 \<and> dist_gate_mm t = 360)"
proof -
  have a: "length sample_frame = FRAME_LEN" using valid_sample_frame by (simp add: valid_frame_def)
  have b: "0 < TARGETS_PER_FRAME" by (simp add: TARGETS_PER_FRAME_def)
  have d: "[0xB8, 0x8B, 0xA0, 0x8F, 0x32, 0x80, 0x68, 0x01] \<noteq> replicate 8 (0 :: byte)"
    by (simp add: numeral_eq_Suc)
  have e: "u16_le 0xB8 0x8B = 0x8BB8" "u16_le 0xA0 0x8F = 0x8FA0" "u16_le 0x32 0x80 = 0x8032"
    "u16_le 0x68 0x01 = 360"
    by (simp_all add: u16_le_def)
  have f: "decode_signed_mag 0x8BB8 = 3000" "decode_signed_mag 0x8FA0 = 4000"
    "decode_signed_mag 0x8032 = 50"
    by (simp_all add: decode_signed_mag_def)
  from signed_magnitude_decoding [OF a b sample_slots(1) d, of "0x8BB8"] a b d e f sample_slots(1)
  show ?thesis by simp
qed

text \<open>
  C2, as stated: the derived range is the norm rounded to the nearest integer. The code
  truncates (\<^verbatim>\<open>int(math.hypot(...))\<close>): for \<open>x = y = 2\<close> the norm is about 2.83, the
  decoded range is 2 and the nearest integer is 3.
\<close>

theorem range_not_rounded_counterexample:
  "parse_targets near_frame =
     Inr [\<lparr>target_id = 1, x_mm = 2, y_mm = 2, r_mm = 2, speed_cm_s = 0, dist_gate_mm = 0\<rparr>]
   \<and> round (sqrt (of_int (2 * 2 + 2 * 2))) = (3::int)"
  using parse_near_frame round_sqrt_8 by simp

text \<open>
  C2, amended: for every decoded target the derived \<open>r_mm\<close> is the integer part of
  the Euclidean norm of \<open>(x_mm, y_mm)\<close> (the norm truncated, not rounded); it is never
  negative, and \<open>x_mm = 3000\<close>, \<open>y_mm = 4000\<close> yields 5000.
\<close>

theorem range_is_truncated_norm:
  assumes "parse_targets frame = Inr ts" "t \<in> set ts"
  shows "r_mm t = \<lfloor>sqrt (of_int (x_mm t * x_mm t + y_mm t * y_mm t))\<rfloor>
    \<and> 0 \<le> r_mm t
    \<and> (x_mm t = 3000 \<and> y_mm t = 4000 \<longrightarrow> r_mm t = 5000)"
proof -
  from assms obtain idx where "t = make_target idx (slot_segment frame idx)"
    by (rule parsed_target_cases)
  then have r: "r_mm t = \<lfloor>sqrt (of_int (x_mm t * x_mm t + y_mm t * y_mm t))\<rfloor>"
    by (simp add: make_target_def Let_def)
  have "0 \<le> x_mm t * x_mm t + y_mm t * y_mm t" by simp
  then have "(0::real) \<le> of_int (x_mm t * x_mm t + y_mm t * y_mm t)" by (simp only: of_int_0_le_iff)
  then have "0 \<le> \<lfloor>sqrt (of_int (x_mm t * x_mm t + y_mm t * y_mm t))\<rfloor>" by simp
  with r have nonneg: "0 \<le> r_mm t" by simp
  have "r_mm t = 5000" if "x_mm t = 3000" "y_mm t = 4000"
    using r that by (simp add: sqrt_25000000)
  with r nonneg show ?thesis by blast
qed

theorem range_is_truncated_norm_witness:
  "parse_targets sample_frame =
     Inr [\<lparr>target_id = 1, x_mm = 3000, y_mm = 4000, r_mm = 5000, speed_cm_s = 50,
           dist_gate_mm = 360\<rparr>]
   \<and> (5000::int) = \<lfloor>sqrt (of_int (3000 * 3000 + 4000 * 4000))\<rfloor>"
proof -
  let ?t = "\<lparr>target_id = 1, x_mm = 3000, y_mm = 4000, r_mm = 5000, speed_cm_s = 50,
           dist_gate_mm = 360\<rparr>"
  have "?t \<in> set [?t]" by simp
  from range_is_truncated_norm [OF parse_sample_frame this] parse_sample_frame
  show ?thesis by simp
qed

section \<open>Claims about the classifier and the outbound packet\<close>

text \<open>
  C5: classification returns a result for every target (whose range and speed are integers
  a double holds exactly, as every decoded value is) and follows the rules in order, the
  first match winning: with \<open>range_m = range_mm / 1000\<close> and
  \<open>speed_m_s = speed_cm_s / 100\<close> as exact quotients, \<open>range_m < 0.5\<close> or
  \<open>range_m > 8.0\<close> gives Ghost with confidence 0.2, whatever the speed; else
  \<open>|speed_m_s| > 4.0\<close> gives Ghost with 0.3; else \<open>|speed_m_s| < 0.05\<close> gives Object
  with 0.8; else Person with 0.85. The confidences are the doubles nearest to these
  decimals. The floating-point comparisons of the code decide exactly as the exact
  quotients do.
\<close>

theorem classification_rules:
  assumes "\<bar>speed_cm_s t\<bar> < 2 ^ 53" "\<bar>r_mm t\<bar> < 2 ^ 53"
  shows "classify_target t =
     Inr (let range_m = real_of_int (r_mm t) / 1000;
              speed_m_s = real_of_int (speed_cm_s t) / 100
          in if range_m < 0.5 \<or> range_m > 8.0 then (OBJECT_TYPE_GHOST, fl64 0.2)
             else if \<bar>speed_m_s\<bar> > 4.0 then (OBJECT_TYPE_GHOST, fl64 0.3)
             else if \<bar>speed_m_s\<bar> < 0.05 then (OBJECT_TYPE_OBJECT, fl64 0.8)
             else (OBJECT_TYPE_PERSON, fl64 0.85))"
proof -
  have e: "\<bar>real_of_int (speed_cm_s t) / 100\<bar> = real_of_int \<bar>speed_cm_s t\<bar> / 100"
    by simp
  show ?thesis
    unfolding classify_target_thresholds [OF assms] Let_def e real_int_thresholds by simp
qed

theorem classification_rules_witness:
  "classify_target \<lparr>target_id = 1, x_mm = 0, y_mm = 300, r_mm = 300, speed_cm_s = 500,
       dist_gate_mm = 0\<rparr> = Inr (OBJECT_TYPE_GHOST, fl64 0.2)
   \<and> classify_target \<lparr>target_id = 1, x_mm = 0, y_mm = 2000, r_mm = 2000, speed_cm_s = 0,
       dist_gate_mm = 0\<rparr> = Inr (OBJECT_TYPE_OBJECT, fl64 0.8)
   \<and> classify_target \<lparr>target_id = 1, x_mm = 0, y_mm = 2000, r_mm = 2000, speed_cm_s = 50,
       dist_gate_mm = 0\<rparr> = Inr (OBJECT_TYPE_PERSON, fl64 0.85)
   \<and> classify_target \<lparr>target_id = 1, x_mm = 0, y_mm = 2000, r_mm = 2000, speed_cm_s = - 500,
       dist_gate_mm = 0\<rparr> = Inr (OBJECT_TYPE_GHOST, fl64 0.3)"
  using
    classification_rules [of "\<lparr>target_id = 1, x_mm = 0, y_mm = 300, r_mm = 300,
       speed_cm_s = 500, dist_gate_mm = 0\<rparr>"]
    classification_rules [of "\<lparr>target_id = 1, x_mm = 0, y_mm = 2000, r_mm = 2000,
       speed_cm_s = 0, dist_gate_mm = 0\<rparr>"]
    classification_rules [of "\<lparr>target_id = 1, x_mm = 0, y_mm = 2000, r_mm = 2000,
       speed_cm_s = 50, dist_gate_mm = 0\<rparr>"]
    classification_rules [of "\<lparr>target_id = 1, x_mm = 0, y_mm = 2000, r_mm = 2000,
       speed_cm_s = - 500, dist_gate_mm = 0\<rparr>"]
  by simp

text \<open>
  C6: for every target (with fields a double holds exactly) the packet is five
  little-endian binary32 floats followed by one byte, 21 bytes in all: \<open>visual_x\<close> and
  \<open>visual_y\<close> are \<open>x_mm / 1000\<close> and \<open>y_mm / 1000\<close> times 3, clamped to \<open>-10 .. 10\<close>;
  \<open>depth\<close> is \<open>range_mm / 1000\<close>; \<open>signal_quality_db\<close> is \<open>40 - depth * 5\<close> clamped to
  \<open>5 .. 35\<close>; \<open>confidence\<close> is \<open>(signal_quality_db - 5) / 30\<close> clamped to \<open>0 .. 1\<close>;
  and the last byte is the classifier's object type masked to one byte. Every operation is
  the double-precision one (\<open>fl64\<close> of the exact result). A range of 2000 mm gives depth
  2.0 and signal quality 30.0, and \<open>x_mm = 5000000\<close> clamps \<open>visual_x\<close> to 10.0.
\<close>

theorem outbound_packet_encoding:
  assumes "\<bar>x_mm t\<bar> < 2 ^ 53" "\<bar>y_mm t\<bar> < 2 ^ 53" "\<bar>r_mm t\<bar> < 2 ^ 53"
    "\<bar>speed_cm_s t\<bar> < 2 ^ 53"
  shows "\<exists>ty conf. classify_target t = Inr (ty, conf) \<and>
     (let visual_x = clamp (fl64 (fl64 (of_int (x_mm t) / 1000) * 3)) (- 10) 10;
          visual_y = clamp (fl64 (fl64 (of_int (y_mm t) / 1000) * 3)) (- 10) 10;
          depth = fl64 (of_int (r_mm t) / 1000);
          signal_quality_db = clamp (fl64 (40 - fl64 (depth * 5))) 5 35;
          confidence = clamp (fl64 (fl64 (signal_quality_db - 5) / 30)) 0 1;
          packet = f32le visual_x @ f32le visual_y @ f32le depth @ f32le signal_quality_db @
                   f32le confidence @ [word_of_int (ty AND 0xFF)]
      in pack_radar_data t = Inr packet \<and> length packet = 21
         \<and> (r_mm t = 2000 \<longrightarrow> depth = 2 \<and> signal_quality_db = 30)
         \<and> (x_mm t = 5000000 \<longrightarrow> visual_x = 10))"
proof -
  obtain ty conf where c: "classify_target t = Inr (ty, conf)"
    by (rule classify_target_type [OF assms(4) assms(3)])
  have i: "fl64 2 = 2" "fl64 10 = 10" "fl64 30 = 30" "fl64 5000 = 5000" "fl64 15000 = 15000"
    using fl64_of_int [of 2] fl64_of_int [of 10] fl64_of_int [of 30] fl64_of_int [of 5000]
      fl64_of_int [of 15000] by simp_all
  have d: "fl64 (of_int (r_mm t) / 1000) = 2 \<and>
      clamp (fl64 (40 - fl64 (fl64 (of_int (r_mm t) / 1000) * 5))) 5 35 = 30"
    if "r_mm t = 2000"
    using that by (simp add: i clamp_def)
  have x: "clamp (fl64 (fl64 (of_int (x_mm t) / 1000) * 3)) (- 10) 10 = 10"
    if "x_mm t = 5000000"
    using that by (simp add: i clamp_def)
  from pack_radar_data_fields [OF assms c] c d x show ?thesis
    by (simp add: Let_def i clamp_def)
qed

theorem outbound_packet_encoding_witness:
  "pack_radar_data \<lparr>target_id = 1, x_mm = 5000000, y_mm = 0, r_mm = 2000, speed_cm_s = 0,
       dist_gate_mm = 0\<rparr> =
     Inr [0, 0, 32, 65, 0, 0, 0, 0, 0, 0, 0, 64, 0, 0, 240, 65, 85, 85, 85, 63, 2]"
proof -
  let ?t = "\<lparr>target_id = 1, x_mm = 5000000, y_mm = 0, r_mm = 2000, speed_cm_s = 0,
       dist_gate_mm = 0\<rparr>"
  have i: "fl64 2 = 2" "fl64 10 = 10" "fl64 30 = 30" "fl64 5000 = 5000" "fl64 15000 = 15000"
    "fl64 25 = 25"
    using fl64_of_int [of 2] fl64_of_int [of 10] fl64_of_int [of 30] fl64_of_int [of 5000]
      fl64_of_int [of 15000] fl64_of_int [of 25] by simp_all
  have c: "classify_target ?t = Inr (OBJECT_TYPE_OBJECT, fl64 (8 / 10))"
    using classify_target_thresholds [of ?t] by simp
  have m: "OBJECT_TYPE_OBJECT AND 0xFF = 2" by (simp add: OBJECT_TYPE_OBJECT_def)
  from outbound_packet_encoding [of ?t] c m show ?thesis
    by (simp add: Let_def clamp_def i f32le_values)
qed

section \<open>Claims about the relay\<close>




text \<open>
  C7: a publish tick while the subscriber is notifying and the queue is attached, every
  queued batch being a non-empty output of the decoder (the reader enqueues nothing else,
  \<open>reader_step_batches\<close>). If the queue is empty the tick changes nothing and publishes
  nothing. Otherwise it empties the queue and publishes exactly one packet, the 21-byte
  packet of a target of the last queued batch whose \<open>r_mm\<close> is the smallest of that batch
  and, among the targets of that range, whose slot index is the smallest; the packet becomes
  the stored value and is the one notification added.
\<close>

theorem publish_tick_closest_of_last:
  assumes "notifying s" and "radar_queue_set s"
    and "\<forall>b \<in> set (data_queue s). b \<noteq> [] \<and> (\<exists>frame. parse_targets frame = Inr b)"
  shows "(data_queue s = [] \<longrightarrow> update_radar_data s = (Inr True, s))
       \<and> (data_queue s \<noteq> [] \<longrightarrow>
            (\<exists>t packet. t \<in> set (last (data_queue s))
               \<and> (\<forall>u \<in> set (last (data_queue s)).
                     r_mm t \<le> r_mm u \<and> (r_mm u = r_mm t \<longrightarrow> target_id t \<le> target_id u))
               \<and> pack_radar_data t = Inr packet \<and> length packet = 21
               \<and> update_radar_data s =
                   (Inr True, s\<lparr>data_queue := [], chr_value := packet,
                                notifications := notifications s @ [packet]\<rparr>)))"
proof (intro conjI impI)
  assume "data_queue s = []"
  then show "update_radar_data s = (Inr True, s)" by (rule tick_empty)
next
  assume ne: "data_queue s \<noteq> []"
  then have "last (data_queue s) \<in> set (data_queue s)" by simp
  with assms(3) obtain frame where b: "last (data_queue s) \<noteq> []"
    and p: "parse_targets frame = Inr (last (data_queue s))" by blast
  show "\<exists>t packet. t \<in> set (last (data_queue s))
      \<and> (\<forall>u \<in> set (last (data_queue s)).
            r_mm t \<le> r_mm u \<and> (r_mm u = r_mm t \<longrightarrow> target_id t \<le> target_id u))
      \<and> pack_radar_data t = Inr packet \<and> length packet = 21
      \<and> update_radar_data s =
          (Inr True, s\<lparr>data_queue := [], chr_value := packet,
                       notifications := notifications s @ [packet]\<rparr>)"
    by (rule tick_publishes [OF assms(1) assms(2) ne refl b p])
qed

theorem publish_tick_closest_of_last_witness:
  "update_radar_data
     \<lparr>data_queue = [[far_target], [far_target, near_target]], radar_queue_set = True,
      notifying = True, chr_value = [], notifications = []\<rparr> =
   (Inr True, \<lparr>data_queue = [], radar_queue_set = True, notifying = True,
               chr_value = near_packet, notifications = [near_packet]\<rparr>)"
proof -
  let ?s = "\<lparr>data_queue = [[far_target], [far_target, near_target]], radar_queue_set = True,
      notifying = True, chr_value = [], notifications = []\<rparr>"
  have q: "\<forall>b \<in> set (data_queue ?s). b \<noteq> [] \<and> (\<exists>frame. parse_targets frame = Inr b)"
    using parse_sample_frame_far parse_two_target_frame by auto
  from publish_tick_closest_of_last [of ?s, OF _ _ q]
  obtain t packet where t: "t \<in> set [far_target, near_target]"
    and m: "\<forall>u \<in> set [far_target, near_target].
              r_mm t \<le> r_mm u \<and> (r_mm u = r_mm t \<longrightarrow> target_id t \<le> target_id u)"
    and p: "pack_radar_data t = Inr packet"
    and u: "update_radar_data ?s =
       (Inr True, ?s\<lparr>data_queue := [], chr_value := packet,
                     notifications := notifications ?s @ [packet]\<rparr>)"
    by auto
  have "t = near_target" using t m by (rule closest_of_two)
  with p have "packet = near_packet" by (simp add: pack_near_target)
  with u show ?thesis by simp
qed

text \<open>
  C10: a publish tick while the subscriber is not notifying, or before a queue is attached,
  returns \<^verbatim>\<open>True\<close> and leaves the whole state as it was: the queue, the stored value and the
  notifications sent. So a batch the reader enqueues while the subscriber is idle stays
  queued over an idle tick, and the first tick after \<^verbatim>\<open>StartNotify\<close> publishes the packet of
  the closest target of that batch.
\<close>

theorem idle_tick_keeps_queue:
  assumes "\<not> notifying s \<or> \<not> radar_queue_set s"
  shows "update_radar_data s = (Inr True, s)
       \<and> (radar_queue_set s \<and> queue_put (data_queue s) b = Returns q' \<and> b \<noteq> []
            \<and> parse_targets frame = Inr b \<longrightarrow>
           update_radar_data (s\<lparr>data_queue := q'\<rparr>) = (Inr True, s\<lparr>data_queue := q'\<rparr>)
           \<and> (\<exists>t packet. t \<in> set b
                \<and> (\<forall>u \<in> set b.
                      r_mm t \<le> r_mm u \<and> (r_mm u = r_mm t \<longrightarrow> target_id t \<le> target_id u))
                \<and> pack_radar_data t = Inr packet
                \<and> update_radar_data (StartNotify (s\<lparr>data_queue := q'\<rparr>)) =
                    (Inr True, s\<lparr>data_queue := [], notifying := True, chr_value := packet,
                                 notifications := notifications s @ [packet]\<rparr>)))"
proof (intro conjI impI)
  show "update_radar_data s = (Inr True, s)" using assms by (rule tick_idle)
next
  assume a: "radar_queue_set s \<and> queue_put (data_queue s) b = Returns q' \<and> b \<noteq> []
      \<and> parse_targets frame = Inr b"
  let ?s1 = "s\<lparr>data_queue := q'\<rparr>"
  from a assms have idle: "\<not> notifying s" by blast
  from a have q': "q' = data_queue s @ [b]" by (auto simp: queue_put_def split: if_splits)
  show "update_radar_data ?s1 = (Inr True, ?s1)" using idle by (intro tick_idle) simp
  have st: "StartNotify ?s1 = s\<lparr>data_queue := q', notifying := True\<rparr>"
    using idle by (simp add: StartNotify_def)
  let ?s2 = "s\<lparr>data_queue := q', notifying := True\<rparr>"
  have "\<exists>t packet. t \<in> set b
      \<and> (\<forall>u \<in> set b. r_mm t \<le> r_mm u \<and> (r_mm u = r_mm t \<longrightarrow> target_id t \<le> target_id u))
      \<and> pack_radar_data t = Inr packet \<and> length packet = 21
      \<and> update_radar_data ?s2 =
          (Inr True, ?s2\<lparr>data_queue := [], chr_value := packet,
                         notifications := notifications ?s2 @ [packet]\<rparr>)"
    using a by (intro tick_publishes [where frame = frame]) (simp_all add: q')
  then show "\<exists>t packet. t \<in> set b
      \<and> (\<forall>u \<in> set b. r_mm t \<le> r_mm u \<and> (r_mm u = r_mm t \<longrightarrow> target_id t \<le> target_id u))
      \<and> pack_radar_data t = Inr packet
      \<and> update_radar_data (StartNotify ?s1) =
          (Inr True, s\<lparr>data_queue := [], notifying := True, chr_value := packet,
                       notifications := notifications s @ [packet]\<rparr>)"
    unfolding st by auto
qed

theorem idle_tick_keeps_queue_witness:
  "update_radar_data idle_relay = (Inr True, idle_relay)
   \<and> queue_put (data_queue idle_relay) [far_target, near_target] =
       Returns [[far_target], [far_target, near_target]]
   \<and> update_radar_data (idle_relay\<lparr>data_queue := [[far_target], [far_target, near_target]]\<rparr>) =
       (Inr True, idle_relay\<lparr>data_queue := [[far_target], [far_target, near_target]]\<rparr>)
   \<and> update_radar_data
       (StartNotify (idle_relay\<lparr>data_queue := [[far_target], [far_target, near_target]]\<rparr>)) =
       (Inr True, \<lparr>data_queue = [], radar_queue_set = True, notifying = True,
                   chr_value = near_packet, notifications = [near_packet]\<rparr>)"
proof -
  let ?b = "[far_target, near_target]"
  let ?q = "[[far_target], ?b]"
  have i: "\<not> notifying idle_relay \<or> \<not> radar_queue_set idle_relay"
    by (simp add: idle_relay_def)
  have a: "radar_queue_set idle_relay" by (simp add: idle_relay_def)
  have pq: "queue_put (data_queue idle_relay) ?b = Returns ?q"
    by (simp add: idle_relay_def queue_put_def QUEUE_MAXSIZE_def)
  note th = idle_tick_keeps_queue [OF i, of ?b ?q two_target_frame]
  from th have c1: "update_radar_data idle_relay = (Inr True, idle_relay)" by blast
  from th a pq parse_two_target_frame
  have c2: "update_radar_data (idle_relay\<lparr>data_queue := ?q\<rparr>) =
      (Inr True, idle_relay\<lparr>data_queue := ?q\<rparr>)" by simp
  from th a pq parse_two_target_frame
  obtain t packet where t: "t \<in> set ?b"
    and m: "\<forall>u \<in> set ?b. r_mm t \<le> r_mm u \<and> (r_mm u = r_mm t \<longrightarrow> target_id t \<le> target_id u)"
    and p: "pack_radar_data t = Inr packet"
    and u: "update_radar_data (StartNotify (idle_relay\<lparr>data_queue := ?q\<rparr>)) =
       (Inr True, idle_relay\<lparr>data_queue := [], notifying := True, chr_value := packet,
                     notifications := notifications idle_relay @ [packet]\<rparr>)"
    by auto
  have "t = near_target" using t m by (rule closest_of_two)
  with p have "packet = near_packet" by (simp add: pack_near_target)
  with u have c3: "update_radar_data (StartNotify (idle_relay\<lparr>data_queue := ?q\<rparr>)) =
       (Inr True, \<lparr>data_queue = [], radar_queue_set = True, notifying = True,
                   chr_value = near_packet, notifications = [near_packet]\<rparr>)"
    by (simp add: idle_relay_def)
  from c1 pq c2 c3 show ?thesis by blast
qed

end
